theory Spec2Isabelle
  imports Main "HOL-Library.Word"
begin

section \<open>The Lazy K graph reducer of \<^verbatim>\<open>lazy.cpp\<close>\<close>

subsection \<open>Expression cells\<close>

text \<open>
  \<^verbatim>\<open>enum Type { A, K, K1, S, S1, S2, I, I1, LazyRead, Inc, Num, Free }\<close>.
\<close>

datatype Type = A | K | K1 | S | S1 | S2 | I | I1 | LazyRead | Inc | Num | Free

text \<open>
  A pointer \<^verbatim>\<open>Expr*\<close> is the index of a cell: one unit is \<^verbatim>\<open>sizeof(Expr)\<close>, so that
  \<^verbatim>\<open>next_alloc++\<close> adds one. The null pointer is \<open>0\<close>.
\<close>

type_synonym addr = nat

text \<open>
  \<^verbatim>\<open>struct Expr { Expr *forward; union { Expr* arg1; int numeric_arg1; }; Expr* arg2; Type type; }\<close>.
  The union is one storage slot, the field \<open>arg1\<close>: the pointer member reads the slot as
  it is, the \<^verbatim>\<open>int\<close> member reads and writes it as a 32-bit two's complement value.
\<close>

record Expr =
  forward :: addr
  arg1 :: addr
  arg2 :: addr
  type :: Type

definition numeric_arg1 :: "Expr \<Rightarrow> 32 word" where
  "numeric_arg1 c = word_of_nat (arg1 c)"

definition set_numeric_arg1 :: "32 word \<Rightarrow> Expr \<Rightarrow> Expr" where
  "set_numeric_arg1 n c = c\<lparr>arg1 := unat n\<rparr>"

text \<open>The constructor \<^verbatim>\<open>Expr(Type t, Expr* a1 = 0, Expr* a2 = 0)\<close>.\<close>

definition Expr_init :: "Type \<Rightarrow> addr \<Rightarrow> addr \<Rightarrow> Expr" where
  "Expr_init t a1 a2 = \<lparr>forward = 0, arg1 = a1, arg2 = a2, type = t\<rparr>"

text \<open>\<^verbatim>\<open>int to_number()\<close>.\<close>

definition to_number :: "Expr \<Rightarrow> 32 word" where
  "to_number c = (if type c = Num then numeric_arg1 c else - 1)"

subsection \<open>Static atoms and the memory layout\<close>

text \<open>
  The twelve global cells, in the order of their declarations. They lie outside
  both semispaces.
\<close>

definition cK :: addr where "cK = 1"
definition cS :: addr where "cS = 2"
definition cI :: addr where "cI = 3"
definition KI :: addr where "KI = 4"
definition SI :: addr where "SI = 5"
definition KS :: addr where "KS = 6"
definition KK :: addr where "KK = 7"
definition SKSK :: addr where "SKSK = 8"
definition SIKS :: addr where "SIKS = 9"
definition Iota :: addr where "Iota = 10"
definition cInc :: addr where "cInc = 11"
definition cZero :: addr where "cZero = 12"

definition is_static :: "addr \<Rightarrow> bool" where
  "is_static p \<longleftrightarrow> 1 \<le> p \<and> p \<le> 12"

text \<open>
  \<^verbatim>\<open>HEAP_SIZE\<close> is 64 MB; a cell holds three pointers and an enum and takes 32 bytes
  where pointers take 8, which gives \<open>2 ^ 21\<close> cells in each of \<^verbatim>\<open>space1\<close> and
  \<^verbatim>\<open>space2\<close>.
\<close>

definition HEAP_CELLS :: nat where "HEAP_CELLS = 2097152"
definition space1 :: addr where "space1 = 16"
definition space2 :: addr where "space2 = 16 + HEAP_CELLS"

definition MAX_ROOTS :: int where "MAX_ROOTS = 10000"

subsection \<open>The state of the process\<close>

text \<open>
  All global variables of the program, and its standard input and output. The work
  stack of the collector, which the program keeps between \<^verbatim>\<open>work_stack_top\<close> and
  \<^verbatim>\<open>to_space_end\<close>, is the list \<open>work_stack\<close>, its top first.
\<close>

record state =
  heap :: "addr \<Rightarrow> Expr"
  from_space_start :: addr
  from_space_end :: addr
  to_space_start :: addr
  to_space_end :: addr
  next_alloc :: addr
  work_stack :: "addr list"
  roots :: "int \<Rightarrow> addr"
  root_stack_top :: int
  cached_church_chars :: "nat \<Rightarrow> addr"
  stdin :: "8 word list"
  stdout :: "8 word list"

text \<open>
  How a call ends when it does not return: \<^verbatim>\<open>exit(n)\<close> after a diagnostic on the
  standard error stream, or \<^verbatim>\<open>abort()\<close>, which ends the process with the signal
  \<^verbatim>\<open>SIGABRT\<close> and no exit code of the program's own.
\<close>

datatype error = Exit int string | Abort string

text \<open>
  A call that may fail or run forever: \<open>None\<close> when the fuel runs out, \<open>Some (Inl e)\<close>
  when the process ends, \<open>Some (Inr x)\<close> when the call returns \<open>x\<close>. Diagnostics are
  kept without their final newline.
\<close>

type_synonym 'a res = "(error + 'a) option"

definition zero_cell :: Expr where
  "zero_cell = \<lparr>forward = 0, arg1 = 0, arg2 = 0, type = A\<rparr>"

text \<open>
  The memory as the loader leaves it: the static arrays and the untouched root table
  are all zero bits, the globals \<^verbatim>\<open>cK\<close> \<open>\<dots>\<close> \<^verbatim>\<open>cZero\<close> are constructed.
\<close>

definition initial_heap :: "addr \<Rightarrow> Expr" where
  "initial_heap =
     (\<lambda>_. zero_cell)
       (cK := Expr_init K 0 0,
        cS := Expr_init S 0 0,
        cI := Expr_init I 0 0,
        KI := Expr_init K1 cI 0,
        SI := Expr_init S1 cI 0,
        KS := Expr_init K1 cS 0,
        KK := Expr_init K1 cK 0,
        SKSK := Expr_init S2 KS cK,
        SIKS := Expr_init S2 cI KS,
        Iota := Expr_init S2 SIKS KK,
        cInc := Expr_init Inc 0 0,
        cZero := Expr_init Num 0 0)"

definition initial_state :: "8 word list \<Rightarrow> state" where
  "initial_state input =
     \<lparr>heap = initial_heap,
      from_space_start = space1,
      from_space_end = space1 + HEAP_CELLS,
      to_space_start = space2,
      to_space_end = space2 + HEAP_CELLS,
      next_alloc = space1,
      work_stack = [],
      roots = (\<lambda>_. 0),
      root_stack_top = 2,
      cached_church_chars = (\<lambda>_. 0)(0 := KI, 1 := cI),
      stdin = input,
      stdout = []\<rparr>"

definition toplevel_root :: int where "toplevel_root = 0"
definition church2int_root :: int where "church2int_root = 1"

subsection \<open>Allocation\<close>

text \<open>
  \<^verbatim>\<open>operator new\<close> returns \<^verbatim>\<open>next_alloc++\<close> and checks nothing. \<open>new_Expr\<close> is a
  whole \<^verbatim>\<open>new Expr(t, a1, a2)\<close> whose arguments are already values.
\<close>

definition operator_new :: "state \<Rightarrow> addr \<times> state" where
  "operator_new s = (next_alloc s, s\<lparr>next_alloc := next_alloc s + 1\<rparr>)"

definition construct :: "addr \<Rightarrow> Type \<Rightarrow> addr \<Rightarrow> addr \<Rightarrow> state \<Rightarrow> state" where
  "construct p t a1 a2 s = s\<lparr>heap := (heap s)(p := Expr_init t a1 a2)\<rparr>"

definition new_Expr :: "Type \<Rightarrow> addr \<Rightarrow> addr \<Rightarrow> state \<Rightarrow> addr \<times> state" where
  "new_Expr t a1 a2 s = (case operator_new s of (p, s1) \<Rightarrow> (p, construct p t a1 a2 s1))"

definition partial_apply :: "addr \<Rightarrow> addr \<Rightarrow> state \<Rightarrow> addr \<times> state" where
  "partial_apply lhs rhs s = new_Expr A lhs rhs s"

subsection \<open>The copying collector\<close>

definition in_arena :: "state \<Rightarrow> addr \<Rightarrow> bool" where
  "in_arena s p \<longleftrightarrow> from_space_start s \<le> p \<and> p < from_space_end s"

definition push_work :: "addr \<Rightarrow> state \<Rightarrow> state" where
  "push_work e s = s\<lparr>work_stack := e # work_stack s\<rparr>"

definition copy_object :: "addr \<Rightarrow> state \<Rightarrow> addr \<times> state" where
  "copy_object obj s =
     (if \<not> in_arena s obj then (obj, s)
      else if forward (heap s obj) \<noteq> 0 then (forward (heap s obj), s)
      else
        let na = next_alloc s;
            s1 = s\<lparr>heap := (heap s)(na := heap s obj)\<rparr>;
            s2 = push_work na s1;
            s3 = s2\<lparr>heap := (heap s2)(obj := (heap s2 obj)\<lparr>forward := na\<rparr>)\<rparr>
        in (na, s3\<lparr>next_alloc := na + 1\<rparr>))"

text \<open>\<^verbatim>\<open>roots[i] = copy_object(roots[i])\<close>, and the same for the cache.\<close>

definition gc_root :: "int \<Rightarrow> state \<Rightarrow> state" where
  "gc_root i s = (case copy_object (roots s i) s of (p, s1) \<Rightarrow> s1\<lparr>roots := (roots s1)(i := p)\<rparr>)"

definition gc_cached :: "nat \<Rightarrow> state \<Rightarrow> state" where
  "gc_cached i s =
     (case copy_object (cached_church_chars s i) s of
        (p, s1) \<Rightarrow> s1\<lparr>cached_church_chars := (cached_church_chars s1)(i := p)\<rparr>)"

text \<open>One round of the loop that empties the work stack.\<close>

definition gc_scan :: "addr \<Rightarrow> state \<Rightarrow> state" where
  "gc_scan cursor s =
     (if type (heap s cursor) \<noteq> Num then
        case copy_object (arg1 (heap s cursor)) s of (p1, s1) \<Rightarrow>
        let s2 = s1\<lparr>heap := (heap s1)(cursor := (heap s1 cursor)\<lparr>arg1 := p1\<rparr>)\<rparr> in
        case copy_object (arg2 (heap s2 cursor)) s2 of (p2, s3) \<Rightarrow>
        s3\<lparr>heap := (heap s3)(cursor := (heap s3 cursor)\<lparr>arg2 := p2\<rparr>)\<rparr>
      else s)"

fun gc_drain :: "nat \<Rightarrow> state \<Rightarrow> state option" where
  "gc_drain 0 s = None"
| "gc_drain (Suc fuel) s =
     (case work_stack s of
        [] \<Rightarrow> Some s
      | cursor # ws \<Rightarrow> gc_drain fuel (gc_scan cursor (s\<lparr>work_stack := ws\<rparr>)))"

definition gc_swap :: "state \<Rightarrow> state" where
  "gc_swap s =
     s\<lparr>from_space_start := to_space_start s,
       to_space_start := from_space_start s,
       from_space_end := to_space_end s,
       to_space_end := from_space_end s\<rparr>"

definition gc :: "nat \<Rightarrow> state \<Rightarrow> state option" where
  "gc fuel s =
     (let s1 = s\<lparr>next_alloc := to_space_start s, work_stack := []\<rparr>;
          s2 = fold gc_root (map int [0 ..< nat (root_stack_top s1)]) s1;
          s3 = fold gc_cached [0 ..< 257] s2
      in case gc_drain fuel s3 of
           None \<Rightarrow> None
         | Some s4 \<Rightarrow> Some (gc_swap s4))"

definition is_exhausted :: "nat \<Rightarrow> state \<Rightarrow> bool" where
  "is_exhausted n s \<longleftrightarrow> next_alloc s + n \<ge> from_space_end s"

definition oom :: "nat \<Rightarrow> nat \<Rightarrow> state \<Rightarrow> state res" where
  "oom fuel n s =
     (case gc fuel s of
        None \<Rightarrow> None
      | Some s1 \<Rightarrow>
          if is_exhausted n s1 then Some (Inl (Exit 4 ''out of memory!''))
          else Some (Inr s1))"

definition check :: "nat \<Rightarrow> nat \<Rightarrow> state \<Rightarrow> state res" where
  "check fuel n s = (if is_exhausted n s then oom fuel n s else Some (Inr s))"

subsection \<open>The root table\<close>

definition root :: "addr \<Rightarrow> state \<Rightarrow> state" where
  "root e s = s\<lparr>roots := (roots s)(root_stack_top s := e), root_stack_top := root_stack_top s + 1\<rparr>"

definition unroot :: "state \<Rightarrow> addr \<times> state" where
  "unroot s = (roots s (root_stack_top s - 1), s\<lparr>root_stack_top := root_stack_top s - 1\<rparr>)"

text \<open>The two pointers are passed by reference: the call returns their new values.\<close>

definition check_rooted :: "nat \<Rightarrow> nat \<Rightarrow> addr \<Rightarrow> addr \<Rightarrow> state \<Rightarrow> (addr \<times> addr \<times> state) res" where
  "check_rooted fuel n e1 e2 s =
     (if is_exhausted n s then
        case oom fuel n (root e2 (root e1 s)) of
          None \<Rightarrow> None
        | Some (Inl err) \<Rightarrow> Some (Inl err)
        | Some (Inr s1) \<Rightarrow>
            (case unroot s1 of (e2', s2) \<Rightarrow>
             case unroot s2 of (e1', s3) \<Rightarrow> Some (Inr (e1', e2', s3)))
      else Some (Inr (e1, e2, s)))"

subsection \<open>The Church character cache and standard input\<close>

text \<open>
  \<^verbatim>\<open>getchar()\<close>: the next byte, or \<^verbatim>\<open>EOF\<close>, which is \<open>-1\<close>.
\<close>

definition getchar :: "state \<Rightarrow> int \<times> state" where
  "getchar s = (case stdin s of [] \<Rightarrow> (- 1, s) | b # bs \<Rightarrow> (uint b, s\<lparr>stdin := bs\<rparr>))"

text \<open>
  \<^verbatim>\<open>make_church_char\<close> calls itself on \<^verbatim>\<open>ch-1\<close> for a missing entry; in
  \<^verbatim>\<open>new Expr(S2, &SKSK, make_church_char(ch-1))\<close> the cell is allocated before the
  constructor's arguments are evaluated.
\<close>

fun make_church_char :: "nat \<Rightarrow> int \<Rightarrow> state \<Rightarrow> (addr \<times> state) option" where
  "make_church_char 0 ch s = None"
| "make_church_char (Suc fuel) ch s =
     (let ch1 = (if ch < 0 \<or> ch > 256 then 256 else ch) in
      if cached_church_chars s (nat ch1) = 0 then
        case operator_new s of (p, s1) \<Rightarrow>
        case make_church_char fuel (ch1 - 1) s1 of
          None \<Rightarrow> None
        | Some (q, s2) \<Rightarrow>
            let s3 = construct p S2 SKSK q s2;
                s4 = s3\<lparr>cached_church_chars := (cached_church_chars s3)(nat ch1 := p)\<rparr>
            in Some (cached_church_chars s4 (nat ch1), s4)
      else Some (cached_church_chars s (nat ch1), s))"

subsection \<open>The reducer\<close>

text \<open>The \<^verbatim>\<open>do \<dots> while (cur->type == I1)\<close> of \<^verbatim>\<open>drop_i1\<close>.\<close>

fun drop_i1_loop :: "nat \<Rightarrow> addr \<Rightarrow> state \<Rightarrow> addr option" where
  "drop_i1_loop 0 cur s = None"
| "drop_i1_loop (Suc fuel) cur s =
     (let cur1 = arg1 (heap s cur) in
      if type (heap s cur1) = I1 then drop_i1_loop fuel cur1 s else Some cur1)"

definition drop_i1 :: "nat \<Rightarrow> addr \<Rightarrow> state \<Rightarrow> (addr \<times> state) option" where
  "drop_i1 fuel cur s =
     (let orig = cur in
      if type (heap s cur) = I1 then
        case drop_i1_loop fuel cur s of
          None \<Rightarrow> None
        | Some cur1 \<Rightarrow> Some (cur1, s\<lparr>heap := (heap s)(orig := (heap s orig)\<lparr>arg1 := cur1\<rparr>)\<rparr>)
      else Some (cur, s))"

text \<open>
  The case \<^verbatim>\<open>S2\<close> of the primitive rewrite, which the case \<^verbatim>\<open>LazyRead\<close> falls into.
\<close>

definition apply_S2 :: "nat \<Rightarrow> addr \<Rightarrow> addr \<Rightarrow> state \<Rightarrow> (addr \<times> addr \<times> state) res" where
  "apply_S2 fuel e prev s =
     (case check_rooted fuel 2 e prev s of
        None \<Rightarrow> None
      | Some (Inl err) \<Rightarrow> Some (Inl err)
      | Some (Inr (e1, prev1, s1)) \<Rightarrow>
          let lhs = arg1 (heap s1 e1); rhs = arg2 (heap s1 e1) in
          case partial_apply (arg1 (heap s1 lhs)) rhs s1 of (p1, s2) \<Rightarrow>
          let s3 = s2\<lparr>heap := (heap s2)(e1 := (heap s2 e1)\<lparr>arg1 := p1\<rparr>)\<rparr> in
          case partial_apply (arg2 (heap s3 lhs)) rhs s3 of (p2, s4) \<Rightarrow>
          let s5 = s4\<lparr>heap := (heap s4)(e1 := (heap s4 e1)\<lparr>arg2 := p2\<rparr>)\<rparr> in
          Some (Inr (e1, prev1, s5)))"

text \<open>
  The statements of the case \<^verbatim>\<open>LazyRead\<close> before it falls through. Of each
  \<^verbatim>\<open>new Expr(\<dots>)\<close> the cell is allocated first, then the arguments are evaluated
  from left to right, then the cell is constructed. The cache is full when the
  reducer runs; \<open>make_church_char\<close> gets the fuel of the call all the same.
\<close>

definition read_LazyRead :: "nat \<Rightarrow> addr \<Rightarrow> addr \<Rightarrow> state \<Rightarrow> (addr \<times> addr \<times> state) res" where
  "read_LazyRead fuel e prev s =
     (case check_rooted fuel 6 e prev s of
        None \<Rightarrow> None
      | Some (Inl err) \<Rightarrow> Some (Inl err)
      | Some (Inr (e1, prev1, s1)) \<Rightarrow>
          let lhs = arg1 (heap s1 e1);
              s2 = s1\<lparr>heap := (heap s1)(lhs := (heap s1 lhs)\<lparr>type := S2\<rparr>)\<rparr> in
          case operator_new s2 of (x, s3) \<Rightarrow>
          case operator_new s3 of (y, s4) \<Rightarrow>
          case getchar s4 of (ch, s5) \<Rightarrow>
          case make_church_char fuel ch s5 of
            None \<Rightarrow> None
          | Some (c, s6) \<Rightarrow>
              let s7 = construct y K1 c 0 s6;
                  s8 = construct x S2 cI y s7;
                  s9 = s8\<lparr>heap := (heap s8)(lhs := (heap s8 lhs)\<lparr>arg1 := x\<rparr>)\<rparr> in
              case operator_new s9 of (z, s10) \<Rightarrow>
              case new_Expr LazyRead 0 0 s10 of (l, s11) \<Rightarrow>
              let s12 = construct z K1 l 0 s11;
                  s13 = s12\<lparr>heap := (heap s12)(lhs := (heap s12 lhs)\<lparr>arg2 := z\<rparr>)\<rparr> in
              Some (Inr (e1, prev1, s13)))"

text \<open>
  \<^verbatim>\<open>partial_eval_primitive_application(Expr *e, Expr *&prev)\<close>. Its one call of
  \<^verbatim>\<open>partial_eval\<close>, in the case \<^verbatim>\<open>Inc\<close>, is the parameter \<open>rec\<close>. The result is the
  returned pointer, the new value of \<^verbatim>\<open>prev\<close> and the new state. The cases \<^verbatim>\<open>A\<close>,
  \<^verbatim>\<open>I1\<close> and \<^verbatim>\<open>Free\<close> are the \<^verbatim>\<open>default\<close> of the \<^verbatim>\<open>switch\<close>, which prints and calls
  \<^verbatim>\<open>abort()\<close>; the \<^verbatim>\<open>exit(4)\<close> behind it is never reached.
\<close>

definition partial_eval_primitive_application ::
  "(addr \<Rightarrow> state \<Rightarrow> (addr \<times> state) res) \<Rightarrow> nat \<Rightarrow> addr \<Rightarrow> addr \<Rightarrow> state
     \<Rightarrow> (addr \<times> addr \<times> state) res" where
  "partial_eval_primitive_application rec fuel e prev s =
     (let lhs = arg1 (heap s e); rhs = arg2 (heap s e) in
      case type (heap s lhs) of
        I \<Rightarrow>
          Some (Inr (rhs, prev,
            s\<lparr>heap := (heap s)(e := (heap s e)\<lparr>type := I1, arg1 := rhs, arg2 := 0\<rparr>)\<rparr>))
      | K \<Rightarrow>
          Some (Inr (e, prev,
            s\<lparr>heap := (heap s)(e := (heap s e)\<lparr>type := K1, arg1 := rhs, arg2 := 0\<rparr>)\<rparr>))
      | K1 \<Rightarrow>
          (let s1 = s\<lparr>heap := (heap s)(e := (heap s e)\<lparr>type := I1\<rparr>)\<rparr>;
               s2 = s1\<lparr>heap := (heap s1)(e := (heap s1 e)\<lparr>arg1 := arg1 (heap s1 lhs)\<rparr>)\<rparr>;
               s3 = s2\<lparr>heap := (heap s2)(e := (heap s2 e)\<lparr>arg2 := 0\<rparr>)\<rparr>
           in Some (Inr (arg1 (heap s3 lhs), prev, s3)))
      | S \<Rightarrow>
          Some (Inr (e, prev,
            s\<lparr>heap := (heap s)(e := (heap s e)\<lparr>type := S1, arg1 := rhs, arg2 := 0\<rparr>)\<rparr>))
      | S1 \<Rightarrow>
          (let s1 = s\<lparr>heap := (heap s)(e := (heap s e)\<lparr>type := S2\<rparr>)\<rparr>;
               s2 = s1\<lparr>heap := (heap s1)(e := (heap s1 e)\<lparr>arg1 := arg1 (heap s1 lhs)\<rparr>)\<rparr>;
               s3 = s2\<lparr>heap := (heap s2)(e := (heap s2 e)\<lparr>arg2 := rhs\<rparr>)\<rparr>
           in Some (Inr (e, prev, s3)))
      | LazyRead \<Rightarrow>
          (case read_LazyRead fuel e prev s of
             None \<Rightarrow> None
           | Some (Inl err) \<Rightarrow> Some (Inl err)
           | Some (Inr (e1, prev1, s1)) \<Rightarrow> apply_S2 fuel e1 prev1 s1)
      | S2 \<Rightarrow> apply_S2 fuel e prev s
      | Inc \<Rightarrow>
          (case rec rhs (root prev (root e s)) of
             None \<Rightarrow> None
           | Some (Inl err) \<Rightarrow> Some (Inl err)
           | Some (Inr (rhs_res, s1)) \<Rightarrow>
               (case unroot s1 of (prev1, s2) \<Rightarrow>
                case unroot s2 of (e1, s3) \<Rightarrow>
                let s4 = s3\<lparr>heap := (heap s3)(e1 := (heap s3 e1)\<lparr>type := Num\<rparr>)\<rparr>;
                    s5 = s4\<lparr>heap := (heap s4)(e1 :=
                           set_numeric_arg1 (to_number (heap s4 rhs_res) + 1) (heap s4 e1))\<rparr>
                in if numeric_arg1 (heap s5 e1) = 0 then
                     Some (Inl (Exit 3
                       ''Runtime error: invalid output format (attempted to apply inc to a non-number)''))
                   else
                     Some (Inr (e1, prev1,
                       s5\<lparr>heap := (heap s5)(e1 := (heap s5 e1)\<lparr>arg2 := 0\<rparr>)\<rparr>))))
      | Num \<Rightarrow>
          Some (Inl (Exit 3
            ''Runtime error: invalid output format (attempted to apply a number)''))
      | _ \<Rightarrow>
          Some (Inl (Abort
            ''INTERNAL ERROR: invalid type in partial_eval_primitive_application'')))"

text \<open>
  The inner \<^verbatim>\<open>while (cur->type == A)\<close> of \<^verbatim>\<open>partial_eval\<close>, which reverses the spine
  through the \<^verbatim>\<open>arg1\<close> fields; it returns \<^verbatim>\<open>cur\<close> and \<^verbatim>\<open>prev\<close>.
\<close>

fun descend :: "nat \<Rightarrow> addr \<Rightarrow> addr \<Rightarrow> state \<Rightarrow> (addr \<times> addr \<times> state) option" where
  "descend 0 cur prev s = None"
| "descend (Suc fuel) cur prev s =
     (if type (heap s cur) = A then
        case drop_i1 fuel (arg1 (heap s cur)) s of
          None \<Rightarrow> None
        | Some (next, s1) \<Rightarrow>
            descend fuel next cur (s1\<lparr>heap := (heap s1)(cur := (heap s1 cur)\<lparr>arg1 := prev\<rparr>)\<rparr>)
      else Some (cur, prev, s))"

text \<open>The \<^verbatim>\<open>for (;;)\<close> of \<^verbatim>\<open>partial_eval\<close>, from the values of \<^verbatim>\<open>prev\<close> and \<^verbatim>\<open>cur\<close>.\<close>

fun partial_eval_loop :: "nat \<Rightarrow> addr \<Rightarrow> addr \<Rightarrow> state \<Rightarrow> (addr \<times> state) res" where
  "partial_eval_loop 0 prev cur s = None"
| "partial_eval_loop (Suc fuel) prev cur s =
     (case drop_i1 fuel cur s of
        None \<Rightarrow> None
      | Some (cur1, s1) \<Rightarrow>
          (case descend fuel cur1 prev s1 of
             None \<Rightarrow> None
           | Some (cur2, prev2, s2) \<Rightarrow>
               if prev2 = 0 then Some (Inr (cur2, s2))
               else
                 let next = cur2; cur3 = prev2; prev3 = arg1 (heap s2 cur3);
                     s3 = s2\<lparr>heap := (heap s2)(cur3 := (heap s2 cur3)\<lparr>arg1 := next\<rparr>)\<rparr>
                 in case partial_eval_primitive_application
                           (\<lambda>node t. partial_eval_loop fuel 0 node t) fuel cur3 prev3 s3 of
                      None \<Rightarrow> None
                    | Some (Inl err) \<Rightarrow> Some (Inl err)
                    | Some (Inr (cur4, prev4, s4)) \<Rightarrow> partial_eval_loop fuel prev4 cur4 s4))"

definition partial_eval :: "nat \<Rightarrow> addr \<Rightarrow> state \<Rightarrow> (addr \<times> state) res" where
  "partial_eval fuel node s = partial_eval_loop fuel 0 node s"

subsection \<open>The parser\<close>

definition EOF :: int where "EOF = - 1"

text \<open>
  The two implementations of the class \<^verbatim>\<open>Stream\<close>. A \<^verbatim>\<open>StringStream\<close> is the text of an
  argument and the position \<^verbatim>\<open>p - str\<close> in it. A \<^verbatim>\<open>File\<close> is the unread input of its
  \<^verbatim>\<open>FILE*\<close> and the fields that its error message uses. Characters are read as their
  codes.
\<close>

datatype Stream =
    StringStream (ss_str: string) (ss_p: nat)
  | File (file_input: string) (circular_buf: "nat \<Rightarrow> int") (last_newline: int) (cur_pos: int)

definition isspace :: "int \<Rightarrow> bool" where
  "isspace ch \<longleftrightarrow> ch = 32 \<or> (9 \<le> ch \<and> ch \<le> 13)"

text \<open>\<^verbatim>\<open>getc\<close> on the unread input.\<close>

definition getc :: "string \<Rightarrow> int \<times> string" where
  "getc cs = (case cs of [] \<Rightarrow> (EOF, []) | c # cs1 \<Rightarrow> (of_char c, cs1))"

text \<open>The \<^verbatim>\<open>do ch = getc(f); while (ch != '\n' && ch != EOF)\<close> that skips a comment.\<close>

fun skip_comment :: "string \<Rightarrow> int \<times> string" where
  "skip_comment [] = (EOF, [])"
| "skip_comment (c # cs) = (if of_char c = (10::int) then (10, cs) else skip_comment cs)"

text \<open>
  One round of the loop of \<^verbatim>\<open>File::getch\<close>: the character it ends with and the new
  fields.
\<close>

definition File_getch_round :: "string \<Rightarrow> (nat \<Rightarrow> int) \<Rightarrow> int \<Rightarrow> int \<Rightarrow> int \<times> Stream" where
  "File_getch_round inp buf nl pos =
     (case getc inp of (ch, inp1) \<Rightarrow>
      let buf1 = buf(nat (pos mod 256) := ch);
          pos1 = pos + 1 in
      case (if ch = 35 then skip_comment inp1 else (ch, inp1)) of (ch2, inp2) \<Rightarrow>
      let nl1 = (if ch2 = 10 then pos1 else nl) in
      (ch2, File inp2 buf1 nl1 pos1))"

fun File_getch :: "nat \<Rightarrow> string \<Rightarrow> (nat \<Rightarrow> int) \<Rightarrow> int \<Rightarrow> int \<Rightarrow> (int \<times> Stream) option" where
  "File_getch 0 inp buf nl pos = None"
| "File_getch (Suc fuel) inp buf nl pos =
     (case File_getch_round inp buf nl pos of
        (ch, File inp1 buf1 nl1 pos1) \<Rightarrow>
          if isspace ch then File_getch fuel inp1 buf1 nl1 pos1
          else Some (ch, File inp1 buf1 nl1 pos1)
      | (ch, f) \<Rightarrow> Some (ch, f))"

definition getch :: "nat \<Rightarrow> Stream \<Rightarrow> (int \<times> Stream) option" where
  "getch fuel f =
     (case f of
        StringStream str p \<Rightarrow>
          Some (if p < length str then (of_char (str ! p), StringStream str (p + 1))
                else (EOF, StringStream str p))
      | File inp buf nl pos \<Rightarrow> File_getch fuel inp buf nl pos)"

definition ungetch :: "int \<Rightarrow> Stream \<Rightarrow> Stream" where
  "ungetch ch f =
     (case f of
        StringStream str p \<Rightarrow> if ch \<noteq> EOF then StringStream str (p - 1) else StringStream str p
      | File inp buf nl pos \<Rightarrow>
          File (if ch \<noteq> EOF then char_of ch # inp else inp) buf nl (pos - 1))"

text \<open>\<^verbatim>\<open>f->error(msg)\<close> prints the message with its context and calls \<^verbatim>\<open>exit(1)\<close>.\<close>

definition stream_error :: "string \<Rightarrow> error" where
  "stream_error msg = Exit 1 msg"

text \<open>
  The loop of the case \<^verbatim>\<open>'0'\<close>, \<^verbatim>\<open>'1'\<close> of \<^verbatim>\<open>parse_expr\<close>, from the values of \<^verbatim>\<open>e\<close> and
  \<^verbatim>\<open>ch\<close> at the head of a round, up to the \<^verbatim>\<open>ungetch\<close> behind it.
\<close>

fun parse_digits :: "nat \<Rightarrow> Stream \<Rightarrow> int \<Rightarrow> addr \<Rightarrow> state \<Rightarrow> (addr \<times> Stream \<times> state) option" where
  "parse_digits 0 f ch e s = None"
| "parse_digits (Suc fuel) f ch e s =
     (case (if ch = 48 then
              case partial_apply e cS s of (p1, s1) \<Rightarrow> partial_apply p1 cK s1
            else
              case partial_apply cK e s of (p1, s1) \<Rightarrow> partial_apply cS p1 s1) of
        (e1, s2) \<Rightarrow>
          (case getch fuel f of
             None \<Rightarrow> None
           | Some (ch1, f1) \<Rightarrow>
               if ch1 = 48 \<or> ch1 = 49 then parse_digits fuel f1 ch1 e1 s2
               else Some (e1, ungetch ch1 f1, s2)))"

text \<open>
  \<^verbatim>\<open>parse_expr\<close> and \<^verbatim>\<open>parse_manual_close\<close>; the latter's \<^verbatim>\<open>while\<close> loop is
  \<open>parse_manual_close_loop\<close>, from the value of \<^verbatim>\<open>e\<close> at the head of a round.
\<close>

fun parse_expr :: "nat \<Rightarrow> Stream \<Rightarrow> int \<Rightarrow> bool \<Rightarrow> state \<Rightarrow> (addr \<times> Stream \<times> state) res"
  and parse_manual_close_loop :: "nat \<Rightarrow> Stream \<Rightarrow> int \<Rightarrow> addr \<Rightarrow> state \<Rightarrow> (addr \<times> Stream \<times> state) res"
where
  "parse_expr 0 f ch i_is_iota s = None"
| "parse_expr (Suc fuel) f ch i_is_iota s =
     (if ch = 96 \<or> ch = 42 then
        (case getch fuel f of
           None \<Rightarrow> None
         | Some (ch1, f1) \<Rightarrow>
        (case parse_expr fuel f1 ch1 (ch = 42) s of
           None \<Rightarrow> None
         | Some (Inl err) \<Rightarrow> Some (Inl err)
         | Some (Inr (p, f2, s1)) \<Rightarrow>
        (case getch fuel f2 of
           None \<Rightarrow> None
         | Some (ch2, f3) \<Rightarrow>
        (case parse_expr fuel f3 ch2 (ch = 42) s1 of
           None \<Rightarrow> None
         | Some (Inl err) \<Rightarrow> Some (Inl err)
         | Some (Inr (q, f4, s2)) \<Rightarrow>
             (case partial_apply p q s2 of (r, s3) \<Rightarrow> Some (Inr (r, f4, s3)))))))
      else if ch = 40 then parse_manual_close_loop fuel f 41 0 s
      else if ch = 41 then Some (Inl (stream_error ''Mismatched close-parenthesis!''))
      else if ch = 107 \<or> ch = 75 then Some (Inr (cK, f, s))
      else if ch = 115 \<or> ch = 83 then Some (Inr (cS, f, s))
      else if ch = 105 \<and> i_is_iota then Some (Inr (Iota, f, s))
      else if ch = 105 \<or> ch = 73 then Some (Inr (cI, f, s))
      else if ch = 48 \<or> ch = 49 then
        (case parse_digits (Suc fuel) f ch cI s of
           None \<Rightarrow> None
         | Some r \<Rightarrow> Some (Inr r))
      else Some (Inl (stream_error ''Invalid character!'')))"
| "parse_manual_close_loop 0 f expected_terminator e s = None"
| "parse_manual_close_loop (Suc fuel) f expected_terminator e s =
     (case getch fuel f of
        None \<Rightarrow> None
      | Some (peek, f1) \<Rightarrow>
          if peek \<noteq> 41 \<and> peek \<noteq> EOF then
            (case parse_expr fuel f1 peek False s of
               None \<Rightarrow> None
             | Some (Inl err) \<Rightarrow> Some (Inl err)
             | Some (Inr (e2, f2, s1)) \<Rightarrow>
                 (case (if e \<noteq> 0 then partial_apply e e2 s1 else (e2, s1)) of
                    (e3, s2) \<Rightarrow> parse_manual_close_loop fuel f2 expected_terminator e3 s2))
          else if peek \<noteq> expected_terminator then
            Some (Inl (stream_error
              (if peek = EOF then ''Premature end of program!''
               else ''Unmatched trailing close-parenthesis!'')))
          else Some (Inr (if e = 0 then cI else e, f1, s)))"

definition parse_manual_close :: "nat \<Rightarrow> Stream \<Rightarrow> int \<Rightarrow> state \<Rightarrow> (addr \<times> Stream \<times> state) res" where
  "parse_manual_close fuel f expected_terminator s =
     parse_manual_close_loop fuel f expected_terminator 0 s"

subsection \<open>The output decoder and the driver\<close>

definition car :: "addr \<Rightarrow> state \<Rightarrow> addr \<times> state" where
  "car list s = partial_apply list cK s"

definition cdr :: "addr \<Rightarrow> state \<Rightarrow> addr \<times> state" where
  "cdr list s = partial_apply list KI s"

definition church2int :: "nat \<Rightarrow> addr \<Rightarrow> state \<Rightarrow> (32 word \<times> state) res" where
  "church2int fuel church s =
     (case check fuel 2 s of
        None \<Rightarrow> None
      | Some (Inl err) \<Rightarrow> Some (Inl err)
      | Some (Inr s1) \<Rightarrow>
          (case partial_apply church cInc s1 of (p, s2) \<Rightarrow>
           case partial_apply p cZero s2 of (e, s3) \<Rightarrow>
           let s4 = s3\<lparr>roots := (roots s3)(church2int_root := e)\<rparr> in
           case partial_eval fuel e s4 of
             None \<Rightarrow> None
           | Some (Inl err) \<Rightarrow> Some (Inl err)
           | Some (Inr (r, s5)) \<Rightarrow>
               let result = to_number (heap s5 r) in
               if result = - 1 then
                 Some (Inl (Exit 3
                   ''Runtime error: invalid output format (result was not a number)''))
               else Some (Inr (result, s5\<lparr>roots := (roots s5)(church2int_root := 0)\<rparr>))))"

definition compose :: "addr \<Rightarrow> addr \<Rightarrow> state \<Rightarrow> addr \<times> state" where
  "compose f g s =
     (case operator_new s of (p, s1) \<Rightarrow>
      case new_Expr K1 f 0 s1 of (k, s2) \<Rightarrow>
      (p, construct p S2 k g s2))"

definition append_program :: "nat \<Rightarrow> addr \<Rightarrow> Stream \<Rightarrow> state \<Rightarrow> (addr \<times> Stream \<times> state) res" where
  "append_program fuel old stream s =
     (case parse_manual_close fuel stream EOF s of
        None \<Rightarrow> None
      | Some (Inl err) \<Rightarrow> Some (Inl err)
      | Some (Inr (e, f1, s1)) \<Rightarrow>
          (case compose e old s1 of (r, s2) \<Rightarrow> Some (Inr (r, f1, s2))))"

text \<open>\<^verbatim>\<open>putchar(ch)\<close> writes \<^verbatim>\<open>ch\<close> converted to \<^verbatim>\<open>unsigned char\<close>.\<close>

definition putchar :: "32 word \<Rightarrow> state \<Rightarrow> state" where
  "putchar ch s = s\<lparr>stdout := stdout s @ [ucast ch]\<rparr>"

text \<open>
  The first loop of \<^verbatim>\<open>main\<close>, which fills the cache: \<open>main_preinit fuel k\<close> is its
  first \<open>k\<close> rounds.
\<close>

fun main_preinit :: "nat \<Rightarrow> nat \<Rightarrow> state \<Rightarrow> state option" where
  "main_preinit fuel 0 s = Some s"
| "main_preinit fuel (Suc k) s =
     (case main_preinit fuel k s of
        None \<Rightarrow> None
      | Some s1 \<Rightarrow>
          (case make_church_char fuel (int k) s1 of
             None \<Rightarrow> None
           | Some (p, s2) \<Rightarrow> Some s2))"

text \<open>
  \<^verbatim>\<open>*toplevel_root = partial_apply(e, new Expr(LazyRead))\<close>, for the program \<^verbatim>\<open>e\<close>
  that the arguments of the command line gave.
\<close>

definition main_install :: "addr \<Rightarrow> state \<Rightarrow> state" where
  "main_install e s =
     (case new_Expr LazyRead 0 0 s of (l, s1) \<Rightarrow>
      case partial_apply e l s1 of (a, s2) \<Rightarrow>
      s2\<lparr>roots := (roots s2)(toplevel_root := a)\<rparr>)"

text \<open>
  One round of the last loop of \<^verbatim>\<open>main\<close>: it returns from \<^verbatim>\<open>main\<close> with a value, or
  goes on.
\<close>

datatype round = Return int | Continue

definition main_round :: "nat \<Rightarrow> state \<Rightarrow> (round \<times> state) res" where
  "main_round fuel s =
     (case check fuel 1 s of
        None \<Rightarrow> None
      | Some (Inl err) \<Rightarrow> Some (Inl err)
      | Some (Inr s1) \<Rightarrow>
          (case car (roots s1 toplevel_root) s1 of (c, s2) \<Rightarrow>
           case church2int fuel c s2 of
             None \<Rightarrow> None
           | Some (Inl err) \<Rightarrow> Some (Inl err)
           | Some (Inr (ch, s3)) \<Rightarrow>
               if 256 \<le>s ch then Some (Inr (Return (sint ch - 256), s3))
               else
                 (case check fuel 1 (putchar ch s3) of
                    None \<Rightarrow> None
                  | Some (Inl err) \<Rightarrow> Some (Inl err)
                  | Some (Inr s4) \<Rightarrow>
                      (case cdr (roots s4 toplevel_root) s4 of (d, s5) \<Rightarrow>
                       Some (Inr (Continue, s5\<lparr>roots := (roots s5)(toplevel_root := d)\<rparr>))))))"

fun main_loop :: "nat \<Rightarrow> state \<Rightarrow> (int \<times> state) res" where
  "main_loop 0 s = None"
| "main_loop (Suc fuel) s =
     (case main_round fuel s of
        None \<Rightarrow> None
      | Some (Inl err) \<Rightarrow> Some (Inl err)
      | Some (Inr (Return v, s1)) \<Rightarrow> Some (Inr (v, s1))
      | Some (Inr (Continue, s1)) \<Rightarrow> main_loop fuel s1)"

subsection \<open>Expression trees\<close>









subsection \<open>Church numerals in the heap\<close>

text \<open>
  The cell \<open>c\<close> is the cache entry for \<open>n\<close> as \<^verbatim>\<open>make_church_char\<close> builds it: the static
  atom \<^verbatim>\<open>KI\<close> for 0, the static atom \<^verbatim>\<open>cI\<close> for 1, and above that a cell
  \<^verbatim>\<open>S2(SKSK, c')\<close> with the entry \<open>c'\<close> for \<open>n - 1\<close>, all of them cells of the arena below
  the address \<open>B\<close>.
\<close>

fun church_numeral :: "(addr \<Rightarrow> Expr) \<Rightarrow> addr \<Rightarrow> nat \<Rightarrow> addr \<Rightarrow> bool" where
  "church_numeral h B 0 c \<longleftrightarrow> c = KI"
| "church_numeral h B (Suc 0) c \<longleftrightarrow> c = cI"
| "church_numeral h B (Suc (Suc n)) c \<longleftrightarrow>
     12 < c \<and> c < B \<and> h c = Expr_init S2 SKSK (arg2 (h c)) \<and> church_numeral h B (Suc n) (arg2 (h c))"

text \<open>The static atoms hold what their constructors gave them.\<close>

definition statics_intact :: "(addr \<Rightarrow> Expr) \<Rightarrow> bool" where
  "statics_intact h \<longleftrightarrow>
     h cK = Expr_init K 0 0 \<and> h cS = Expr_init S 0 0 \<and> h cI = Expr_init I 0 0 \<and>
     h KI = Expr_init K1 cI 0 \<and> h SI = Expr_init S1 cI 0 \<and> h KS = Expr_init K1 cS 0 \<and>
     h KK = Expr_init K1 cK 0 \<and> h SKSK = Expr_init S2 KS cK \<and> h SIKS = Expr_init S2 cI KS \<and>
     h Iota = Expr_init S2 SIKS KK \<and> h cInc = Expr_init Inc 0 0 \<and> h cZero = Expr_init Num 0 0"

subsection \<open>Well-formed pointers and heaps\<close>

text \<open>
  A pointer is in order for the cells from \<open>lo\<close> up to \<open>hi\<close> when it is null, points to a
  static atom, or points to one of these cells.
\<close>

definition ptr_ok :: "addr \<Rightarrow> addr \<Rightarrow> addr \<Rightarrow> bool" where
  "ptr_ok lo hi p \<longleftrightarrow> p = 0 \<or> is_static p \<or> (lo \<le> p \<and> p < hi)"

text \<open>
  The cells of the active arena that are allocated lie between \<^verbatim>\<open>from_space_start\<close> and
  \<^verbatim>\<open>next_alloc\<close>. In such a cell the forwarding pointer is null, and its children are in
  order unless its tag is \<^verbatim>\<open>Num\<close>.
\<close>

definition cell_ok :: "state \<Rightarrow> addr \<Rightarrow> bool" where
  "cell_ok s p \<longleftrightarrow>
     forward (heap s p) = 0 \<and>
     (type (heap s p) \<noteq> Num \<longrightarrow>
        ptr_ok (from_space_start s) (next_alloc s) (arg1 (heap s p)) \<and>
        ptr_ok (from_space_start s) (next_alloc s) (arg2 (heap s p)))"

text \<open>
  The two semispaces have the same size, do not overlap and lie above the static
  atoms, and the allocation pointer is in the active one.
\<close>

definition layout_ok :: "state \<Rightarrow> bool" where
  "layout_ok s \<longleftrightarrow>
     12 < from_space_start s \<and> 12 < to_space_start s \<and>
     from_space_start s \<le> from_space_end s \<and> to_space_start s \<le> to_space_end s \<and>
     from_space_end s - from_space_start s = to_space_end s - to_space_start s \<and>
     (from_space_end s \<le> to_space_start s \<or> to_space_end s \<le> from_space_start s) \<and>
     from_space_start s \<le> next_alloc s \<and> next_alloc s \<le> from_space_end s"

text \<open>
  The state that the collector expects and leaves behind: every live slot of the root
  table, every entry of the cache and every allocated cell is in order.
\<close>

definition heap_ok :: "state \<Rightarrow> bool" where
  "heap_ok s \<longleftrightarrow>
     layout_ok s \<and>
     (\<forall>i. 0 \<le> i \<and> i < root_stack_top s \<longrightarrow>
        ptr_ok (from_space_start s) (next_alloc s) (roots s i)) \<and>
     (\<forall>j < 257. ptr_ok (from_space_start s) (next_alloc s) (cached_church_chars s j)) \<and>
     (\<forall>p. from_space_start s \<le> p \<and> p < next_alloc s \<longrightarrow> cell_ok s p)"

text \<open>
  The invariant of a collection that started in the state \<open>s0\<close>. A pointer may be in
  order for the cells that were allocated in \<open>s0\<close> or for the copies made so far; in a
  copy that is neither on the work stack nor in \<open>X\<close>, only the latter.
\<close>

definition forwarded :: "state \<Rightarrow> state \<Rightarrow> addr set" where
  "forwarded s0 s =
     {p. from_space_start s0 \<le> p \<and> p < next_alloc s0 \<and> forward (heap s p) \<noteq> 0}"

definition mixed_ok :: "state \<Rightarrow> state \<Rightarrow> addr \<Rightarrow> bool" where
  "mixed_ok s0 s p \<longleftrightarrow>
     ptr_ok (from_space_start s0) (next_alloc s0) p \<or> ptr_ok (to_space_start s0) (next_alloc s) p"

definition gc_inv :: "state \<Rightarrow> addr set \<Rightarrow> state \<Rightarrow> bool" where
  "gc_inv s0 X s \<longleftrightarrow>
     from_space_start s = from_space_start s0 \<and> from_space_end s = from_space_end s0 \<and>
     to_space_start s = to_space_start s0 \<and> to_space_end s = to_space_end s0 \<and>
     root_stack_top s = root_stack_top s0 \<and>
     next_alloc s = to_space_start s0 + card (forwarded s0 s) \<and>
     (\<forall>q \<in> set (work_stack s). to_space_start s0 \<le> q \<and> q < next_alloc s) \<and>
     (\<forall>p. from_space_start s0 \<le> p \<and> p < next_alloc s0 \<longrightarrow>
        (forward (heap s p) \<noteq> 0 \<longrightarrow>
           to_space_start s0 \<le> forward (heap s p) \<and> forward (heap s p) < next_alloc s) \<and>
        (type (heap s p) \<noteq> Num \<longrightarrow>
           ptr_ok (from_space_start s0) (next_alloc s0) (arg1 (heap s p)) \<and>
           ptr_ok (from_space_start s0) (next_alloc s0) (arg2 (heap s p)))) \<and>
     (\<forall>q. to_space_start s0 \<le> q \<and> q < next_alloc s \<longrightarrow>
        forward (heap s q) = 0 \<and>
        (type (heap s q) \<noteq> Num \<longrightarrow>
           mixed_ok s0 s (arg1 (heap s q)) \<and> mixed_ok s0 s (arg2 (heap s q)) \<and>
           (q \<notin> set (work_stack s) \<union> X \<longrightarrow>
              ptr_ok (to_space_start s0) (next_alloc s) (arg1 (heap s q)) \<and>
              ptr_ok (to_space_start s0) (next_alloc s) (arg2 (heap s q))))) \<and>
     (\<forall>i. 0 \<le> i \<and> i < root_stack_top s0 \<longrightarrow> mixed_ok s0 s (roots s i)) \<and>
     (\<forall>j < 257. mixed_ok s0 s (cached_church_chars s j))"

text \<open>
  What one \<open>copy_object\<close> keeps and gives: the invariant, a result in order for the
  copies, the roots and the cache, the copies made before, and one more cell on the
  work stack for each cell allocated.
\<close>

definition copy_step :: "state \<Rightarrow> state \<Rightarrow> state \<Rightarrow> bool" where
  "copy_step s0 s s' \<longleftrightarrow>
     next_alloc s \<le> next_alloc s' \<and> roots s' = roots s \<and>
     cached_church_chars s' = cached_church_chars s \<and>
     (\<forall>q. to_space_start s0 \<le> q \<and> q < next_alloc s \<longrightarrow> heap s' q = heap s q) \<and>
     length (work_stack s') + next_alloc s = length (work_stack s) + next_alloc s' \<and>
     set (work_stack s) \<subseteq> set (work_stack s')"

subsection \<open>Concrete states\<close>

text \<open>
  The application \<^verbatim>\<open>A(A(K, K), K)\<close> built by the program's own allocator: the cell
  \<open>space1 + 1\<close> is an application whose head is an application.
\<close>

definition abort_example :: state where
  "abort_example =
     (case partial_apply cK cK (initial_state []) of (p, s1) \<Rightarrow> snd (partial_apply p cK s1))"

text \<open>\<^verbatim>\<open>A(Inc, Num(0))\<close>, the innermost application of every decoding.\<close>

definition inc_example :: state where
  "inc_example = snd (partial_apply cInc cZero (initial_state []))"

text \<open>
  The state after the first \<open>k\<close> rounds of the loop of \<^verbatim>\<open>main\<close> that fills the cache,
  written out: round \<open>i \<ge> 2\<close> allocates the next cell for \<^verbatim>\<open>S2(SKSK, ccc[i-1])\<close>.
\<close>

definition church_cell :: "nat \<Rightarrow> addr" where
  "church_cell i = (if i = 0 then KI else if i = 1 then cI else space1 + (i - 2))"

definition preinit_state :: "nat \<Rightarrow> 8 word list \<Rightarrow> state" where
  "preinit_state k input =
     (initial_state input)
       \<lparr>heap := (\<lambda>p. if space1 \<le> p \<and> p + 2 < space1 + k
                      then Expr_init S2 SKSK (church_cell (p - space1 + 1))
                      else initial_heap p),
        next_alloc := space1 + (k - 2),
        cached_church_chars := (\<lambda>i. if i < 2 \<or> i < k then church_cell i else 0)\<rparr>"

text \<open>
  The state in which the last loop of \<^verbatim>\<open>main\<close> starts for the program \<^verbatim>\<open>I\<close> and the
  given input.
\<close>

definition identity_program_state :: "8 word list \<Rightarrow> state" where
  "identity_program_state input = main_install cI (preinit_state 257 input)"

text \<open>
  A state of the running program, with the cache full and the byte 1 on the standard
  input, in which the cell \<open>space1 + 255\<close> is a \<^verbatim>\<open>LazyRead\<close> and the cell
  \<open>space1 + 256\<close> is its application to \<^verbatim>\<open>K\<close>.
\<close>

definition lazyread_example :: state where
  "lazyread_example =
     (case new_Expr LazyRead 0 0 (preinit_state 257 [1]) of (l, s1) \<Rightarrow>
      snd (partial_apply l cK s1))"

text \<open>
  The state after the primitive rewrite of that application: the byte is consumed,
  six cells are new, and the cells \<open>space1 + 255\<close> and \<open>space1 + 256\<close> are rewritten.
\<close>

definition lazyread_example_after :: state where
  "lazyread_example_after =
     (preinit_state 257 [1])
       \<lparr>stdin := [],
        next_alloc := space1 + 263,
        heap := (heap (preinit_state 257 [1]))
          (space1 + 258 := Expr_init K1 cI 0,
           space1 + 257 := Expr_init S2 cI (space1 + 258),
           space1 + 260 := Expr_init LazyRead 0 0,
           space1 + 259 := Expr_init K1 (space1 + 260) 0,
           space1 + 255 := Expr_init S2 (space1 + 257) (space1 + 259),
           space1 + 261 := Expr_init A (space1 + 257) cK,
           space1 + 262 := Expr_init A (space1 + 259) cK,
           space1 + 256 := Expr_init A (space1 + 261) (space1 + 262))\<rparr>"

text \<open>
  The state in which the first decoding for the program \<^verbatim>\<open>I\<close> on the input byte 1
  calls the reducer: the cell \<open>space1 + 259\<close> is
  \<^verbatim>\<open>A(A(A(A(I, LazyRead), K), Inc), Num(0))\<close>.
\<close>

definition decode_example :: state where
  "decode_example =
     (case car (roots (identity_program_state [1]) toplevel_root) (identity_program_state [1]) of
        (c, s2) \<Rightarrow>
      case partial_apply c cInc s2 of (p, s3) \<Rightarrow>
      snd (partial_apply p cZero s3))"

section \<open>Basic facts\<close>


lemma to_number_succ_zero:
  "to_number c + 1 = 0 \<longleftrightarrow> type c \<noteq> Num \<or> numeric_arg1 c + 1 = 0"
  by (simp add: to_number_def)

subsection \<open>What the collector and the reservation checks leave unchanged\<close>

definition same_io :: "state \<Rightarrow> state \<Rightarrow> bool" where
  "same_io s t \<longleftrightarrow> stdin t = stdin s \<and> stdout t = stdout s \<and> root_stack_top t = root_stack_top s"

lemma same_io_refl [simp]: "same_io s s"
  by (simp add: same_io_def)

lemma same_io_trans: "same_io s t \<Longrightarrow> same_io t u \<Longrightarrow> same_io s u"
  by (simp add: same_io_def)

lemma copy_object_io: "copy_object obj s = (p, t) \<Longrightarrow> same_io s t"
  by (auto simp: copy_object_def same_io_def Let_def push_work_def split: if_splits)

lemma gc_root_io: "same_io s (gc_root i s)"
  by (cases "copy_object (roots s i) s") (auto simp: gc_root_def same_io_def dest!: copy_object_io)

lemma gc_cached_io: "same_io s (gc_cached i s)"
  by (cases "copy_object (cached_church_chars s i) s")
     (auto simp: gc_cached_def same_io_def dest!: copy_object_io)

lemma fold_io:
  assumes "\<And>i s. same_io s (f i s)"
  shows "same_io s (fold f xs s)"
proof (induction xs arbitrary: s)
  case Nil
  show ?case by simp
next
  case (Cons x xs)
  have "same_io s (f x s)" by (rule assms)
  moreover have "same_io (f x s) (fold f xs (f x s))" by (rule Cons.IH)
  ultimately show ?case by (simp add: same_io_trans)
qed

lemma gc_scan_io: "same_io s (gc_scan c s)"
proof (cases "type (heap s c) \<noteq> Num")
  case False
  then show ?thesis by (simp add: gc_scan_def)
next
  case True
  obtain p1 s1 where c1: "copy_object (arg1 (heap s c)) s = (p1, s1)"
    by (cases "copy_object (arg1 (heap s c)) s")
  define s2 where "s2 = s1\<lparr>heap := (heap s1)(c := (heap s1 c)\<lparr>arg1 := p1\<rparr>)\<rparr>"
  obtain p2 s3 where c2: "copy_object (arg2 (heap s2 c)) s2 = (p2, s3)"
    by (cases "copy_object (arg2 (heap s2 c)) s2")
  have "same_io s s1" using c1 by (rule copy_object_io)
  moreover have "same_io s1 s2" by (simp add: s2_def same_io_def)
  moreover have "same_io s2 s3" using c2 by (rule copy_object_io)
  ultimately have "same_io s s3" by (blast intro: same_io_trans)
  then show ?thesis
    using True c1 c2 by (simp add: gc_scan_def Let_def s2_def same_io_def)
qed

lemma gc_drain_io: "gc_drain fuel s = Some t \<Longrightarrow> same_io s t"
proof (induction fuel arbitrary: s)
  case 0
  then show ?case by simp
next
  case (Suc fuel)
  show ?case
  proof (cases "work_stack s")
    case Nil
    with Suc.prems show ?thesis by simp
  next
    case (Cons c ws)
    with Suc.prems have "gc_drain fuel (gc_scan c (s\<lparr>work_stack := ws\<rparr>)) = Some t" by simp
    then have "same_io (gc_scan c (s\<lparr>work_stack := ws\<rparr>)) t" by (rule Suc.IH)
    moreover have "same_io (s\<lparr>work_stack := ws\<rparr>) (gc_scan c (s\<lparr>work_stack := ws\<rparr>))"
      by (rule gc_scan_io)
    moreover have "same_io s (s\<lparr>work_stack := ws\<rparr>)" by (simp add: same_io_def)
    ultimately show ?thesis by (blast intro: same_io_trans)
  qed
qed

lemma gc_io: "gc fuel s = Some t \<Longrightarrow> same_io s t"
proof -
  assume g: "gc fuel s = Some t"
  define s1 where "s1 = s\<lparr>next_alloc := to_space_start s, work_stack := []\<rparr>"
  define s2 where "s2 = fold gc_root (map int [0 ..< nat (root_stack_top s1)]) s1"
  define s3 where "s3 = fold gc_cached [0 ..< 257] s2"
  from g obtain s4 where d: "gc_drain fuel s3 = Some s4" and t: "t = gc_swap s4"
    by (auto simp: gc_def Let_def s1_def s2_def s3_def split: option.splits)
  have "same_io s s1" by (simp add: s1_def same_io_def)
  moreover have "same_io s1 s2" unfolding s2_def by (rule fold_io) (rule gc_root_io)
  moreover have "same_io s2 s3" unfolding s3_def by (rule fold_io) (rule gc_cached_io)
  moreover have "same_io s3 s4" using d by (rule gc_drain_io)
  moreover have "same_io s4 t" by (simp add: t gc_swap_def same_io_def)
  ultimately show ?thesis by (blast intro: same_io_trans)
qed

lemma oom_io: "oom fuel n s = Some (Inr t) \<Longrightarrow> same_io s t"
  by (auto simp: oom_def split: option.splits if_splits dest: gc_io)

lemma check_io: "check fuel n s = Some (Inr t) \<Longrightarrow> same_io s t"
  by (auto simp: check_def split: if_splits dest: oom_io)

lemma oom_not_exhausted: "oom fuel n s = Some (Inr t) \<Longrightarrow> \<not> is_exhausted n t"
  by (auto simp: oom_def split: option.splits if_splits)

lemma check_not_exhausted: "check fuel n s = Some (Inr t) \<Longrightarrow> \<not> is_exhausted n t"
  by (auto simp: check_def split: if_splits dest: oom_not_exhausted)

lemma check_rooted_not_exhausted:
  "check_rooted fuel n e1 e2 s = Some (Inr (e1', e2', t)) \<Longrightarrow> \<not> is_exhausted n t"
  by (auto simp: check_rooted_def unroot_def is_exhausted_def
      split: if_splits option.splits sum.splits dest!: oom_not_exhausted)

lemma check_rooted_io:
  "check_rooted fuel n e1 e2 s = Some (Inr (e1', e2', t)) \<Longrightarrow> same_io s t"
  by (auto simp: check_rooted_def unroot_def root_def same_io_def
      split: if_splits option.splits sum.splits dest!: oom_io)

lemma check_rooted_skip:
  "\<not> is_exhausted n s \<Longrightarrow> check_rooted fuel n e1 e2 s = Some (Inr (e1, e2, s))"
  by (simp add: check_rooted_def)


subsection \<open>Unfolding concrete states\<close>

lemmas layout_defs = space1_def space2_def HEAP_CELLS_def
  cK_def cS_def cI_def KI_def SI_def KS_def KK_def SKSK_def SIKS_def Iota_def cInc_def cZero_def

lemmas alloc_defs = partial_apply_def new_Expr_def operator_new_def construct_def Expr_init_def

lemmas initial_defs = initial_state_def initial_heap_def zero_cell_def

subsection \<open>Reading a byte\<close>

lemma getchar_eq:
  "getchar t = (case stdin t of [] \<Rightarrow> - 1 | c # cs \<Rightarrow> uint c, t\<lparr>stdin := tl (stdin t)\<rparr>)"
  by (cases "stdin t") (simp_all add: getchar_def)

lemma clamp_byte:
  fixes xs :: "8 word list"
  defines "ch \<equiv> (case xs of [] \<Rightarrow> - 1 | c # cs \<Rightarrow> uint c)"
  shows "nat (if ch < 0 \<or> ch > 256 then 256 else ch) = (case xs of [] \<Rightarrow> 256 | c # cs \<Rightarrow> unat c)"
proof (cases xs)
  case Nil
  then show ?thesis by (simp add: ch_def)
next
  case (Cons c cs)
  have "uint c < 256" using uint_lt2p [of c] by simp
  moreover have "0 \<le> uint c" by simp
  ultimately show ?thesis using Cons by (simp add: ch_def)
qed

subsection \<open>The loop that fills the cache\<close>


lemma make_church_char_cached:
  "cached_church_chars s (nat (if ch < 0 \<or> ch > 256 then 256 else ch)) \<noteq> 0 \<Longrightarrow>
   make_church_char (Suc fuel) ch s
     = Some (cached_church_chars s (nat (if ch < 0 \<or> ch > 256 then 256 else ch)), s)"
  by (simp add: Let_def)

lemma church_cell_nonzero [simp]: "church_cell i \<noteq> 0"
  by (simp add: church_cell_def layout_defs)

lemma preinit_state_0: "preinit_state 0 input = initial_state input"
  by (auto simp: preinit_state_def initial_state_def church_cell_def fun_eq_iff)

lemma preinit_state_step_low:
  assumes "k < 2"
  shows "make_church_char (Suc fuel) (int k) (preinit_state k input)
     = Some (church_cell k, preinit_state (Suc k) input)"
proof -
  have h: "(\<lambda>p. if space1 \<le> p \<and> p + 2 < space1 + Suc k
                then Expr_init S2 SKSK (church_cell (p - space1 + 1)) else initial_heap p)
      = (\<lambda>p. if space1 \<le> p \<and> p + 2 < space1 + k
                then Expr_init S2 SKSK (church_cell (p - space1 + 1)) else initial_heap p)"
    using assms by (auto simp: fun_eq_iff)
  have c': "(\<lambda>i. if i < 2 \<or> i < Suc k then church_cell i else 0)
      = (\<lambda>i. if i < 2 \<or> i < k then church_cell i else (0::nat))"
    using assms by (auto simp: fun_eq_iff)
  have n: "Suc k - 2 = k - 2"
    using assms by simp
  have e: "preinit_state (Suc k) input = preinit_state k input"
    unfolding preinit_state_def h c' n ..
  have c: "cached_church_chars (preinit_state k input) k = church_cell k"
    using assms by (simp add: preinit_state_def)
  show ?thesis
    using assms by (subst make_church_char_cached) (simp_all add: c e)
qed

lemma preinit_state_step:
  assumes "2 \<le> k" "k \<le> 256"
  shows "make_church_char (Suc (Suc fuel)) (int k) (preinit_state k input)
     = Some (church_cell k, preinit_state (Suc k) input)"
proof -
  let ?s1 = "snd (operator_new (preinit_state k input))"
  have c: "cached_church_chars (preinit_state k input) k = 0"
    using assms by (simp add: preinit_state_def)
  have r: "make_church_char (Suc fuel) (int k - 1) ?s1 = Some (church_cell (k - 1), ?s1)"
    using assms
    by (subst make_church_char_cached)
       (auto simp: operator_new_def preinit_state_def nat_diff_distrib)
  have e: "(construct (space1 + (k - 2)) S2 SKSK (church_cell (k - 1)) ?s1)
       \<lparr>cached_church_chars := (cached_church_chars ?s1)(k := space1 + (k - 2))\<rparr>
       = preinit_state (Suc k) input"
    using assms
    by (auto simp: construct_def operator_new_def preinit_state_def fun_eq_iff church_cell_def
        initial_state_def numeral_3_eq_3)
  show ?thesis
    using assms c r e
    by (simp add: Let_def operator_new_def construct_def church_cell_def preinit_state_def)
qed

lemma main_preinit_eq:
  "k \<le> 257 \<Longrightarrow> main_preinit (Suc (Suc fuel)) k (initial_state input) = Some (preinit_state k input)"
proof (induction k)
  case 0
  show ?case by (simp add: preinit_state_0)
next
  case (Suc k)
  then have ih: "main_preinit (Suc (Suc fuel)) k (initial_state input) = Some (preinit_state k input)"
    by simp
  have "make_church_char (Suc (Suc fuel)) (int k) (preinit_state k input)
     = Some (church_cell k, preinit_state (Suc k) input)"
  proof (cases "k < 2")
    case True
    then show ?thesis by (rule preinit_state_step_low)
  next
    case False
    with Suc.prems show ?thesis by (intro preinit_state_step) simp_all
  qed
  with ih show ?case by (simp del: make_church_char.simps)
qed

subsection \<open>Running the model on a concrete state\<close>

text \<open>
  The equation of the reducer's loop is applied one round at a time, by \<open>subst\<close>, and
  the fields of the concrete states are read through equations of their own.
\<close>


declare partial_eval_loop.simps [simp del]

lemmas partial_eval_loop_numeral =
  partial_eval_loop.simps(2) [where fuel = "pred_numeral k", folded numeral_eq_Suc] for k
lemmas descend_numeral =
  descend.simps(2) [where fuel = "pred_numeral k", folded numeral_eq_Suc] for k
lemmas drop_i1_loop_numeral =
  drop_i1_loop.simps(2) [where fuel = "pred_numeral k", folded numeral_eq_Suc] for k
lemmas make_church_char_numeral =
  make_church_char.simps(2) [where fuel = "pred_numeral k", folded numeral_eq_Suc] for k
lemmas gc_drain_numeral =
  gc_drain.simps(2) [where fuel = "pred_numeral k", folded numeral_eq_Suc] for k


lemmas run_defs = 
      descend_numeral drop_i1_loop_numeral make_church_char_numeral gc_drain_numeral
      drop_i1_def Let_def
      partial_eval_primitive_application_def read_LazyRead_def apply_S2_def check_rooted_def
      getchar_def putchar_def to_number_def numeric_arg1_def set_numeric_arg1_def
      root_def unroot_def is_exhausted_def
      alloc_defs layout_defs

lemma initial_heap_apply:
  "initial_heap p =
     (if p = cZero then Expr_init Num 0 0
      else if p = cInc then Expr_init Inc 0 0
      else if p = Iota then Expr_init S2 SIKS KK
      else if p = SIKS then Expr_init S2 cI KS
      else if p = SKSK then Expr_init S2 KS cK
      else if p = KK then Expr_init K1 cK 0
      else if p = KS then Expr_init K1 cS 0
      else if p = SI then Expr_init S1 cI 0
      else if p = KI then Expr_init K1 cI 0
      else if p = cI then Expr_init I 0 0
      else if p = cS then Expr_init S 0 0
      else if p = cK then Expr_init K 0 0
      else zero_cell)"
  by (simp add: initial_heap_def)

lemma preinit_state_fields:
  "heap (preinit_state k input) p =
     (if space1 \<le> p \<and> p + 2 < space1 + k
      then Expr_init S2 SKSK (church_cell (p - space1 + 1)) else initial_heap p)"
  "next_alloc (preinit_state k input) = space1 + (k - 2)"
  "cached_church_chars (preinit_state k input) i = (if i < 2 \<or> i < k then church_cell i else 0)"
  "from_space_start (preinit_state k input) = space1"
  "from_space_end (preinit_state k input) = space1 + HEAP_CELLS"
  "to_space_start (preinit_state k input) = space2"
  "to_space_end (preinit_state k input) = space2 + HEAP_CELLS"
  "work_stack (preinit_state k input) = []"
  "roots (preinit_state k input) j = 0"
  "root_stack_top (preinit_state k input) = 2"
  "stdin (preinit_state k input) = input"
  "stdout (preinit_state k input) = []"
  by (simp_all add: preinit_state_def initial_state_def)

lemmas state_defs = preinit_state_fields initial_heap_apply zero_cell_def church_cell_def

section \<open>The primitive rewrite\<close>

text \<open>
  Claim C2. Let \<open>e\<close> be an application whose head has the tag \<^verbatim>\<open>Inc\<close>, and let the
  reduction of its argument return the cell \<open>rhs_res\<close> in the state \<open>s1\<close>; \<open>e1\<close> and
  \<open>prev1\<close> are \<^verbatim>\<open>e\<close> and \<^verbatim>\<open>prev\<close> as the two \<^verbatim>\<open>unroot()\<close> read them back, and the
  result is not the application node itself. If the result has not the tag \<^verbatim>\<open>Num\<close>, or
  if its number plus one is zero in 32-bit arithmetic, the process exits with code 3
  and the diagnostic about an invalid output format. Otherwise the call returns
  \<open>e1\<close>, which now is \<^verbatim>\<open>Num\<close> of the result's number plus one with a null \<^verbatim>\<open>arg2\<close>,
  and no other cell has changed.
\<close>

theorem Inc_rewrite:
  assumes lhs: "type (heap s (arg1 (heap s e))) = Inc"
    and rec: "rec (arg2 (heap s e)) (root prev (root e s)) = Some (Inr (rhs_res, s1))"
    and e1: "e1 = roots s1 (root_stack_top s1 - 2)"
    and prev1: "prev1 = roots s1 (root_stack_top s1 - 1)"
    and noalias: "rhs_res \<noteq> e1"
  shows "if type (heap s1 rhs_res) \<noteq> Num \<or> numeric_arg1 (heap s1 rhs_res) + 1 = 0
     then partial_eval_primitive_application rec fuel e prev s =
       Some (Inl (Exit 3
         ''Runtime error: invalid output format (attempted to apply inc to a non-number)''))
     else \<exists>s'. partial_eval_primitive_application rec fuel e prev s = Some (Inr (e1, prev1, s'))
       \<and> type (heap s' e1) = Num
       \<and> numeric_arg1 (heap s' e1) = numeric_arg1 (heap s1 rhs_res) + 1
       \<and> arg2 (heap s' e1) = 0
       \<and> (\<forall>p. p \<noteq> e1 \<longrightarrow> heap s' p = heap s1 p)"
  using assms
  by (simp add: partial_eval_primitive_application_def Let_def unroot_def to_number_succ_zero)
     (simp add: to_number_def numeric_arg1_def set_numeric_arg1_def)

text \<open>
  The theorem at \<^verbatim>\<open>A(Inc, Num(0))\<close>, with the reducer itself for the recursive call:
  the application becomes \<^verbatim>\<open>Num(1)\<close>.
\<close>

theorem Inc_rewrite_witness:
  "type (heap inc_example (arg1 (heap inc_example space1))) = Inc
   \<and> partial_eval (Suc (Suc 0)) (arg2 (heap inc_example space1)) (root 0 (root space1 inc_example))
       = Some (Inr (cZero, root 0 (root space1 inc_example)))
   \<and> cZero \<noteq> space1
   \<and> (\<exists>s'. partial_eval_primitive_application (partial_eval (Suc (Suc 0))) 0 space1 0 inc_example
          = Some (Inr (space1, 0, s'))
        \<and> type (heap s' space1) = Num \<and> numeric_arg1 (heap s' space1) = 1)"
proof -
  let ?s = inc_example
  let ?s1 = "root 0 (root space1 inc_example)"
  have h1: "type (heap ?s (arg1 (heap ?s space1))) = Inc"
    by (simp add: inc_example_def alloc_defs initial_defs layout_defs)
  have h2: "partial_eval (Suc (Suc 0)) (arg2 (heap ?s space1)) ?s1 = Some (Inr (cZero, ?s1))"
    by (simp add: partial_eval_def partial_eval_loop.simps drop_i1_def root_def inc_example_def
        alloc_defs initial_defs layout_defs)
  have h3: "space1 = roots ?s1 (root_stack_top ?s1 - 2)"
    by (simp add: root_def)
  have h4: "0 = roots ?s1 (root_stack_top ?s1 - 1)"
    by (simp add: root_def)
  have h5: "cZero \<noteq> space1"
    by (simp add: layout_defs)
  have h6: "type (heap ?s1 cZero) = Num \<and> numeric_arg1 (heap ?s1 cZero) = 0"
    by (simp add: root_def inc_example_def alloc_defs initial_defs layout_defs numeric_arg1_def)
  show ?thesis
    using Inc_rewrite [where rec = "partial_eval (Suc (Suc 0))" and s = inc_example
        and e = space1 and prev = 0 and fuel = 0, OF h1 h2 h3 h4 h5] h1 h2 h5 h6
    by auto
qed

text \<open>
  Claim C3, as amended. When the head of the application has a tag that the
  \<^verbatim>\<open>switch\<close> has no case for, which are \<^verbatim>\<open>A\<close>, \<^verbatim>\<open>I1\<close> and \<^verbatim>\<open>Free\<close>, the process prints
  the diagnostic of an internal error and ends in \<^verbatim>\<open>abort()\<close>.
\<close>

theorem default_tag_aborts:
  "type (heap s (arg1 (heap s e))) \<in> {A, I1, Free} \<Longrightarrow>
   partial_eval_primitive_application rec fuel e prev s
     = Some (Inl (Abort ''INTERNAL ERROR: invalid type in partial_eval_primitive_application''))"
  by (auto simp: partial_eval_primitive_application_def Let_def)

text \<open>The theorem at \<^verbatim>\<open>A(A(K, K), K)\<close>, whose head is an application.\<close>

theorem default_tag_aborts_witness:
  "type (heap abort_example (arg1 (heap abort_example (space1 + 1)))) \<in> {A, I1, Free}
   \<and> partial_eval_primitive_application (partial_eval 0) 0 (space1 + 1) 0 abort_example
     = Some (Inl (Abort ''INTERNAL ERROR: invalid type in partial_eval_primitive_application''))"
proof -
  have h: "type (heap abort_example (arg1 (heap abort_example (space1 + 1)))) \<in> {A, I1, Free}"
    by (simp add: abort_example_def alloc_defs initial_defs layout_defs)
  show ?thesis
    using default_tag_aborts [OF h] h by simp
qed

text \<open>
  Claim C3 as it is written fails at the same application: the process ends in
  \<^verbatim>\<open>abort()\<close>, and that is not an exit with code 4.
\<close>

theorem default_tag_exit_code_counterexample:
  "partial_eval_primitive_application (partial_eval 0) 0 (space1 + 1) 0 abort_example
     = Some (Inl (Abort ''INTERNAL ERROR: invalid type in partial_eval_primitive_application''))
   \<and> (Abort ''INTERNAL ERROR: invalid type in partial_eval_primitive_application'' :: error)
       \<noteq> Exit 4 ''INTERNAL ERROR: invalid type in partial_eval_primitive_application''"
  by (simp add: partial_eval_primitive_application_def abort_example_def alloc_defs initial_defs
      layout_defs)

text \<open>
  Claim C1, as amended. Let \<open>e\<close> be an application whose head has the tag
  \<^verbatim>\<open>LazyRead\<close>, and let the reservation of six cells return \<open>e1\<close>, \<open>prev1\<close> and the
  state \<open>s1\<close>, in which \<open>lhs\<close> and \<open>rhs\<close> are the children of \<open>e1\<close>, both cells
  allocated before. Then six cells are free, one byte \<open>b\<close> is taken from the standard
  input (256 at its end), and the rewrite returns with the cell \<open>lhs\<close> itself
  rewritten to \<^verbatim>\<open>S2(S2(I, K1(ccc[b])), K1(LazyRead'))\<close>, where \<^verbatim>\<open>LazyRead'\<close> is a new
  cell, and with \<open>e1\<close> rewritten as the case \<^verbatim>\<open>S2\<close> does from the new \<open>lhs\<close>: its
  children are the new cells \<^verbatim>\<open>A(lhs->arg1, rhs)\<close> and \<^verbatim>\<open>A(lhs->arg2, rhs)\<close>.
\<close>

theorem LazyRead_rewrite:
  assumes head: "type (heap s (arg1 (heap s e))) = LazyRead"
    and reserve: "check_rooted fuel 6 e prev s = Some (Inr (e1, prev1, s1))"
    and lhs: "lhs = arg1 (heap s1 e1)" and rhs: "rhs = arg2 (heap s1 e1)"
    and old: "lhs < next_alloc s1" "e1 < next_alloc s1" "lhs \<noteq> e1"
    and b: "b = (case stdin s1 of [] \<Rightarrow> 256 | c # cs \<Rightarrow> unat c)"
    and cache: "cached_church_chars s1 b \<noteq> 0"
    and fuel: "0 < fuel"
    and x: "x = next_alloc s1"
  shows "\<exists>s'. partial_eval_primitive_application rec fuel e prev s = Some (Inr (e1, prev1, s'))
      \<and> x + 6 < from_space_end s1
      \<and> heap s' lhs = \<lparr>forward = forward (heap s1 lhs), arg1 = x, arg2 = x + 2, type = S2\<rparr>
      \<and> heap s' x = Expr_init S2 cI (x + 1)
      \<and> heap s' (x + 1) = Expr_init K1 (cached_church_chars s1 b) 0
      \<and> heap s' (x + 2) = Expr_init K1 (x + 3) 0
      \<and> heap s' (x + 3) = Expr_init LazyRead 0 0
      \<and> heap s' e1 = (heap s1 e1)\<lparr>arg1 := x + 4, arg2 := x + 5\<rparr>
      \<and> heap s' (x + 4) = Expr_init A x rhs
      \<and> heap s' (x + 5) = Expr_init A (x + 2) rhs
      \<and> stdin s' = tl (stdin s1)
      \<and> next_alloc s' = x + 6"
proof -
  obtain fuel' where f: "fuel = Suc fuel'"
    using fuel by (cases fuel) simp_all
  have room: "\<not> is_exhausted 6 s1"
    using reserve by (rule check_rooted_not_exhausted)
  then have room': "x + 6 < from_space_end s1"
    by (simp add: is_exhausted_def x)
  have c0: "cached_church_chars s1 (case stdin s1 of [] \<Rightarrow> 256 | c # cs \<Rightarrow> unat c) \<noteq> 0"
    using cache b by simp
  show ?thesis
    using head old c0 room' unfolding lhs rhs x b
    by (simp add: partial_eval_primitive_application_def read_LazyRead_def
        reserve [unfolded f] Let_def f
        split_beta operator_new_def getchar_eq clamp_byte make_church_char_cached
        apply_S2_def check_rooted_skip is_exhausted_def alloc_defs
        del: make_church_char.simps)
qed

text \<open>
  The theorem at the application of a \<^verbatim>\<open>LazyRead\<close> to \<^verbatim>\<open>K\<close>, with the byte 1 on the
  standard input.
\<close>

theorem LazyRead_rewrite_witness:
  "type (heap lazyread_example (arg1 (heap lazyread_example (space1 + 256)))) = LazyRead
   \<and> check_rooted 1 6 (space1 + 256) 0 lazyread_example
        = Some (Inr (space1 + 256, 0, lazyread_example))
   \<and> space1 + 255 = arg1 (heap lazyread_example (space1 + 256))
   \<and> cK = arg2 (heap lazyread_example (space1 + 256))
   \<and> space1 + 255 < next_alloc lazyread_example
   \<and> space1 + 256 < next_alloc lazyread_example
   \<and> 1 = (case stdin lazyread_example of [] \<Rightarrow> 256 | c # cs \<Rightarrow> unat c)
   \<and> cached_church_chars lazyread_example 1 \<noteq> 0
   \<and> space1 + 257 = next_alloc lazyread_example
   \<and> (\<exists>s'. partial_eval_primitive_application (partial_eval 0) 1 (space1 + 256) 0
               lazyread_example = Some (Inr (space1 + 256, 0, s'))
          \<and> heap s' (space1 + 255)
              = \<lparr>forward = 0, arg1 = space1 + 257, arg2 = space1 + 259, type = S2\<rparr>
          \<and> heap s' (space1 + 257) = Expr_init S2 cI (space1 + 258)
          \<and> heap s' (space1 + 258) = Expr_init K1 cI 0
          \<and> heap s' (space1 + 259) = Expr_init K1 (space1 + 260) 0
          \<and> heap s' (space1 + 260) = Expr_init LazyRead 0 0
          \<and> stdin s' = [])"
proof -
  let ?S = lazyread_example
  have h1: "type (heap ?S (arg1 (heap ?S (space1 + 256)))) = LazyRead"
    by (simp add: lazyread_example_def alloc_defs state_defs layout_defs)
  have h2: "check_rooted 1 6 (space1 + 256) 0 ?S = Some (Inr (space1 + 256, 0, ?S))"
    by (simp add: check_rooted_def is_exhausted_def lazyread_example_def alloc_defs state_defs
        layout_defs)
  have h3: "space1 + 255 = arg1 (heap ?S (space1 + 256))"
    by (simp add: lazyread_example_def alloc_defs state_defs layout_defs)
  have h4: "cK = arg2 (heap ?S (space1 + 256))"
    by (simp add: lazyread_example_def alloc_defs state_defs layout_defs)
  have h5: "space1 + 255 < next_alloc ?S" "space1 + 256 < next_alloc ?S"
    "space1 + 255 \<noteq> space1 + 256"
    by (simp_all add: lazyread_example_def alloc_defs state_defs layout_defs)
  have h6: "1 = (case stdin ?S of [] \<Rightarrow> 256 | c # cs \<Rightarrow> unat c)"
    by (simp add: lazyread_example_def alloc_defs state_defs layout_defs)
  have h7: "cached_church_chars ?S 1 \<noteq> 0"
    by (simp add: lazyread_example_def alloc_defs state_defs layout_defs)
  have h8: "(0::nat) < 1"
    by simp
  have h9: "space1 + 257 = next_alloc ?S"
    by (simp add: lazyread_example_def alloc_defs state_defs layout_defs)
  have f: "forward (heap ?S (space1 + 255)) = 0" "cached_church_chars ?S 1 = cI"
    "stdin ?S = [1]"
    by (simp_all add: lazyread_example_def alloc_defs state_defs layout_defs)
  have r: "\<exists>s'. partial_eval_primitive_application (partial_eval 0) 1 (space1 + 256) 0 ?S
               = Some (Inr (space1 + 256, 0, s'))
          \<and> heap s' (space1 + 255)
              = \<lparr>forward = 0, arg1 = space1 + 257, arg2 = space1 + 259, type = S2\<rparr>
          \<and> heap s' (space1 + 257) = Expr_init S2 cI (space1 + 258)
          \<and> heap s' (space1 + 258) = Expr_init K1 cI 0
          \<and> heap s' (space1 + 259) = Expr_init K1 (space1 + 260) 0
          \<and> heap s' (space1 + 260) = Expr_init LazyRead 0 0
          \<and> stdin s' = []"
    using LazyRead_rewrite [where rec = "partial_eval 0" and s = ?S and prev = 0,
        OF h1 h2 h3 h4 h5 h6 h7 h8 h9]
    unfolding f by (auto simp: space1_def)
  show ?thesis
    by (intro conjI h1 h2 h3 h4 h5 h6 h7 h9 r)
qed

text \<open>
  Claim C1 as it is written fails there: the first child of the rewritten
  \<^verbatim>\<open>LazyRead\<close> cell is \<^verbatim>\<open>S2(I, K1(ccc[1]))\<close>, a cell with the tag \<^verbatim>\<open>S2\<close> and not
  the application \<^verbatim>\<open>A(I, K1(ccc[1]))\<close>.
\<close>

theorem LazyRead_inner_tag_counterexample:
  "partial_eval_primitive_application (partial_eval 0) 1 (space1 + 256) 0 lazyread_example
     = Some (Inr (space1 + 256, 0, lazyread_example_after))
   \<and> heap lazyread_example_after (space1 + 255)
       = \<lparr>forward = 0, arg1 = space1 + 257, arg2 = space1 + 259, type = S2\<rparr>
   \<and> heap lazyread_example_after (space1 + 257)
       = \<lparr>forward = 0, arg1 = cI, arg2 = space1 + 258, type = S2\<rparr>
   \<and> type (heap lazyread_example_after (space1 + 257)) \<noteq> A"
  by (simp add: lazyread_example_def lazyread_example_after_def
      partial_eval_primitive_application_def read_LazyRead_def
      apply_S2_def check_rooted_def state_defs run_defs)

section \<open>The reducer\<close>

subsection \<open>The tag of the cell that the reducer returns\<close>

lemma drop_i1_loop_type:
  "drop_i1_loop fuel cur s = Some r \<Longrightarrow> type (heap s r) \<noteq> I1"
  by (induction fuel arbitrary: cur) (auto simp: Let_def split: if_splits)

lemma drop_i1_type:
  assumes "drop_i1 fuel cur s = Some (r, s')"
  shows "type (heap s' r) \<noteq> I1" and "type (heap s' p) = type (heap s p)"
  using assms
  by (auto simp: drop_i1_def Let_def split: if_splits option.splits dest: drop_i1_loop_type)

lemma descend_type:
  "descend fuel cur prev s = Some (cur', prev', s') \<Longrightarrow> type (heap s cur) \<noteq> I1 \<Longrightarrow>
   type (heap s' cur') \<noteq> A \<and> type (heap s' cur') \<noteq> I1"
proof (induction fuel arbitrary: cur prev s)
  case 0
  then show ?case by simp
next
  case (Suc fuel)
  show ?case
  proof (cases "type (heap s cur) = A")
    case False
    with Suc.prems show ?thesis by simp
  next
    case True
    with Suc.prems obtain nxt s1 where
      d: "drop_i1 fuel (arg1 (heap s cur)) s = Some (nxt, s1)" and
      r: "descend fuel nxt cur (s1\<lparr>heap := (heap s1)(cur := (heap s1 cur)\<lparr>arg1 := prev\<rparr>)\<rparr>)
            = Some (cur', prev', s')"
      by (auto split: option.splits)
    have "type (heap s1 nxt) \<noteq> I1"
      using d by (rule drop_i1_type)
    then have "type (heap (s1\<lparr>heap := (heap s1)(cur := (heap s1 cur)\<lparr>arg1 := prev\<rparr>)\<rparr>) nxt) \<noteq> I1"
      by auto
    with r show ?thesis by (rule Suc.IH)
  qed
qed

lemma partial_eval_loop_type:
  "partial_eval_loop fuel prev cur s = Some (Inr (r, s')) \<Longrightarrow>
   type (heap s' r) \<noteq> A \<and> type (heap s' r) \<noteq> I1"
proof (induction fuel arbitrary: prev cur s)
  case 0
  then show ?case by (simp add: partial_eval_loop.simps)
next
  case (Suc fuel)
  from Suc.prems obtain cur1 s1 cur2 prev2 s2 where
    d: "drop_i1 fuel cur s = Some (cur1, s1)" and
    w: "descend fuel cur1 prev s1 = Some (cur2, prev2, s2)"
    by (auto simp: partial_eval_loop.simps split: option.splits)
  have t: "type (heap s2 cur2) \<noteq> A \<and> type (heap s2 cur2) \<noteq> I1"
    using w drop_i1_type(1) [OF d] by (rule descend_type)
  show ?case
  proof (cases "prev2 = 0")
    case True
    with Suc.prems d w t show ?thesis by (simp add: partial_eval_loop.simps)
  next
    case False
    with Suc.prems d w obtain cur4 prev4 s4 where
      "partial_eval_loop fuel prev4 cur4 s4 = Some (Inr (r, s'))"
      by (auto simp: partial_eval_loop.simps Let_def split: option.splits sum.splits)
    then show ?thesis by (rule Suc.IH)
  qed
qed

text \<open>The reduction of the example, which forces the \<^verbatim>\<open>LazyRead\<close> and ends in \<^verbatim>\<open>Num(1)\<close>.\<close>

lemma decode_example_reduces:
  "\<exists>s'. partial_eval 30 (space1 + 259) decode_example = Some (Inr (space1 + 259, s'))
     \<and> type (heap s' (space1 + 259)) = Num \<and> numeric_arg1 (heap s' (space1 + 259)) = 1"
  apply (simp add: decode_example_def identity_program_state_def main_install_def car_def
      partial_eval_def toplevel_root_def state_defs run_defs)
  apply (subst partial_eval_loop_numeral, simp add: run_defs state_defs)+
  done

lemma decode_example_top: "root_stack_top decode_example = 2"
  by (simp add: decode_example_def identity_program_state_def main_install_def car_def
      toplevel_root_def state_defs run_defs)

text \<open>
  Claim C10. When \<^verbatim>\<open>partial_eval\<close> returns, the cell that it returns has neither the
  tag \<^verbatim>\<open>A\<close> nor the tag \<^verbatim>\<open>I1\<close>.
\<close>

theorem partial_eval_result_tag:
  "partial_eval fuel x s = Some (Inr (r, s')) \<Longrightarrow>
   type (heap s' r) \<noteq> A \<and> type (heap s' r) \<noteq> I1"
  unfolding partial_eval_def by (rule partial_eval_loop_type)

text \<open>The theorem at the decoding example.\<close>

theorem partial_eval_result_tag_witness:
  "\<exists>s'. partial_eval 30 (space1 + 259) decode_example = Some (Inr (space1 + 259, s'))
     \<and> type (heap s' (space1 + 259)) \<noteq> A \<and> type (heap s' (space1 + 259)) \<noteq> I1"
proof -
  obtain s' where h: "partial_eval 30 (space1 + 259) decode_example = Some (Inr (space1 + 259, s'))"
    using decode_example_reduces by blast
  from partial_eval_result_tag [OF h] h show ?thesis by blast
qed

lemma partial_eval_of_result:
  assumes "type (heap s r) \<noteq> A" "type (heap s r) \<noteq> I1"
  shows "partial_eval (Suc (Suc fuel)) r s = Some (Inr (r, s))"
  using assms by (simp add: partial_eval_def partial_eval_loop.simps drop_i1_def)

text \<open>
  Claim C4. When \<^verbatim>\<open>partial_eval\<close> has returned the cell \<open>r\<close>, a second call on \<open>r\<close>
  returns the same cell \<open>r\<close> and leaves the state as it is.
\<close>

theorem partial_eval_idempotent:
  assumes "partial_eval fuel x s = Some (Inr (r, s'))" and "2 \<le> fuel'"
  shows "partial_eval fuel' r s' = Some (Inr (r, s'))"
proof -
  have t: "type (heap s' r) \<noteq> A \<and> type (heap s' r) \<noteq> I1"
    using assms(1) unfolding partial_eval_def by (rule partial_eval_loop_type)
  obtain k where "fuel' = Suc (Suc k)"
    using assms(2) by (metis Suc_le_D numeral_2_eq_2 Suc_le_mono)
  with t show ?thesis by (simp add: partial_eval_of_result)
qed

text \<open>The theorem at the decoding example.\<close>

theorem partial_eval_idempotent_witness:
  "\<exists>s'. partial_eval 30 (space1 + 259) decode_example = Some (Inr (space1 + 259, s'))
     \<and> (2::nat) \<le> 30
     \<and> partial_eval 30 (space1 + 259) s' = Some (Inr (space1 + 259, s'))"
proof -
  obtain s' where h: "partial_eval 30 (space1 + 259) decode_example = Some (Inr (space1 + 259, s'))"
    using decode_example_reduces by blast
  have f: "(2::nat) \<le> 30" by simp
  from partial_eval_idempotent [OF h f] h f show ?thesis by blast
qed

subsection \<open>The root stack\<close>

lemma make_church_char_top:
  "make_church_char fuel ch s = Some (p, t) \<Longrightarrow> root_stack_top t = root_stack_top s"
proof (induction fuel arbitrary: ch s p t)
  case 0
  then show ?case by simp
next
  case (Suc fuel)
  let ?ch1 = "if ch < 0 \<or> ch > 256 then 256 else ch"
  show ?case
  proof (cases "cached_church_chars s (nat ?ch1) = 0")
    case False
    with Suc.prems show ?thesis by (simp add: Let_def)
  next
    case True
    with Suc.prems obtain q s2 where
      r: "make_church_char fuel (?ch1 - 1) (snd (operator_new s)) = Some (q, s2)" and
      t: "root_stack_top t = root_stack_top s2"
      by (auto simp: Let_def split_beta construct_def split: option.splits)
    have "root_stack_top s2 = root_stack_top (snd (operator_new s))"
      using r by (rule Suc.IH)
    with t show ?thesis by (simp add: operator_new_def)
  qed
qed

lemma drop_i1_top: "drop_i1 fuel cur s = Some (r, t) \<Longrightarrow> root_stack_top t = root_stack_top s"
  by (auto simp: drop_i1_def Let_def split: if_splits option.splits)

lemma descend_top:
  "descend fuel cur prev s = Some (cur', prev', t) \<Longrightarrow> root_stack_top t = root_stack_top s"
proof (induction fuel arbitrary: cur prev s)
  case 0
  then show ?case by simp
next
  case (Suc fuel)
  show ?case
  proof (cases "type (heap s cur) = A")
    case False
    with Suc.prems show ?thesis by simp
  next
    case True
    with Suc.prems obtain nxt s1 where
      d: "drop_i1 fuel (arg1 (heap s cur)) s = Some (nxt, s1)" and
      r: "descend fuel nxt cur (s1\<lparr>heap := (heap s1)(cur := (heap s1 cur)\<lparr>arg1 := prev\<rparr>)\<rparr>)
            = Some (cur', prev', t)"
      by (auto split: option.splits)
    from Suc.IH [OF r] drop_i1_top [OF d] show ?thesis by simp
  qed
qed

lemma check_rooted_top:
  "check_rooted fuel n e1 e2 s = Some (Inr (e1', e2', t)) \<Longrightarrow> root_stack_top t = root_stack_top s"
  by (drule check_rooted_io) (simp add: same_io_def)

lemma apply_S2_top:
  "apply_S2 fuel e prev s = Some (Inr (e1, prev1, t)) \<Longrightarrow> root_stack_top t = root_stack_top s"
  by (auto simp: apply_S2_def Let_def split_beta alloc_defs
      split: option.splits sum.splits dest!: check_rooted_top)

lemma read_LazyRead_top:
  "read_LazyRead fuel e prev s = Some (Inr (e1, prev1, t)) \<Longrightarrow> root_stack_top t = root_stack_top s"
  by (auto simp: read_LazyRead_def Let_def split_beta alloc_defs getchar_eq
      split: option.splits sum.splits dest!: check_rooted_top make_church_char_top)

lemma primitive_application_top:
  assumes rec: "\<And>node u r u'. rec node u = Some (Inr (r, u')) \<Longrightarrow> root_stack_top u' = root_stack_top u"
    and "partial_eval_primitive_application rec fuel e prev s = Some (Inr (e1, prev1, t))"
  shows "root_stack_top t = root_stack_top s"
proof (cases "type (heap s (arg1 (heap s e)))")
  case Inc
  with assms(2) obtain rhs_res s1 where
    r: "rec (arg2 (heap s e)) (root prev (root e s)) = Some (Inr (rhs_res, s1))" and
    t: "root_stack_top t = root_stack_top s1 - 2"
    by (auto simp: partial_eval_primitive_application_def Let_def unroot_def
        split: option.splits sum.splits if_splits)
  have "root_stack_top s1 = root_stack_top (root prev (root e s))"
    using r by (rule rec)
  with t show ?thesis by (simp add: root_def)
next
  case LazyRead
  with assms(2) show ?thesis
    by (auto simp: partial_eval_primitive_application_def Let_def
        split: option.splits sum.splits dest!: read_LazyRead_top apply_S2_top)
next
  case S2
  with assms(2) show ?thesis
    by (auto simp: partial_eval_primitive_application_def Let_def dest!: apply_S2_top)
qed (use assms(2) in \<open>auto simp: partial_eval_primitive_application_def Let_def\<close>)

lemma partial_eval_loop_top:
  "partial_eval_loop fuel prev cur s = Some (Inr (r, t)) \<Longrightarrow> root_stack_top t = root_stack_top s"
proof (induction fuel arbitrary: prev cur s r t)
  case 0
  then show ?case by (simp add: partial_eval_loop.simps)
next
  case (Suc fuel)
  from Suc.prems obtain cur1 s1 cur2 prev2 s2 where
    d: "drop_i1 fuel cur s = Some (cur1, s1)" and
    w: "descend fuel cur1 prev s1 = Some (cur2, prev2, s2)"
    by (auto simp: partial_eval_loop.simps split: option.splits)
  have t2: "root_stack_top s2 = root_stack_top s"
    using drop_i1_top [OF d] descend_top [OF w] by simp
  show ?case
  proof (cases "prev2 = 0")
    case True
    with Suc.prems d w t2 show ?thesis by (simp add: partial_eval_loop.simps)
  next
    case False
    define s3 where "s3 = s2\<lparr>heap := (heap s2)(prev2 := (heap s2 prev2)\<lparr>arg1 := cur2\<rparr>)\<rparr>"
    from False Suc.prems d w obtain cur4 prev4 s4 where
      p: "partial_eval_primitive_application (\<lambda>node u. partial_eval_loop fuel 0 node u) fuel
            prev2 (arg1 (heap s2 prev2)) s3 = Some (Inr (cur4, prev4, s4))" and
      l: "partial_eval_loop fuel prev4 cur4 s4 = Some (Inr (r, t))"
      by (auto simp: partial_eval_loop.simps Let_def s3_def split: option.splits sum.splits)
    have "root_stack_top s4 = root_stack_top s3"
      using p by (rule primitive_application_top [rotated]) (rule Suc.IH)
    moreover have "root_stack_top t = root_stack_top s4"
      using l by (rule Suc.IH)
    ultimately show ?thesis using t2 by (simp add: s3_def)
  qed
qed

text \<open>
  Claim C9. When a call of \<^verbatim>\<open>partial_eval\<close> returns, \<^verbatim>\<open>root_stack_top\<close> has the value
  that it had when the call was entered.
\<close>

theorem root_stack_balanced:
  "partial_eval fuel node s = Some (Inr (r, t)) \<Longrightarrow> root_stack_top t = root_stack_top s"
  unfolding partial_eval_def by (rule partial_eval_loop_top)

text \<open>
  The theorem at the decoding example, whose reduction pushes and pops in the case
  \<^verbatim>\<open>Inc\<close>.
\<close>

theorem root_stack_balanced_witness:
  "\<exists>s'. partial_eval 30 (space1 + 259) decode_example = Some (Inr (space1 + 259, s'))
     \<and> root_stack_top s' = 2"
proof -
  obtain s' where h: "partial_eval 30 (space1 + 259) decode_example = Some (Inr (space1 + 259, s'))"
    using decode_example_reduces by blast
  from root_stack_balanced [OF h] h decode_example_top show ?thesis by auto
qed

subsection \<open>Symbolic rounds of the reducer\<close>

lemmas step_defs =
  drop_i1_def Let_def partial_eval_primitive_application_def apply_S2_def check_rooted_def
  to_number_def numeric_arg1_def set_numeric_arg1_def root_def unroot_def is_exhausted_def
  alloc_defs

lemma partial_eval_loop_of_result:
  assumes "type (heap s r) \<noteq> A" "type (heap s r) \<noteq> I1"
  shows "partial_eval_loop (Suc (Suc fuel)) 0 r s = Some (Inr (r, s))"
  using assms by (simp add: partial_eval_loop.simps drop_i1_def)

lemma Inc_case:
  assumes lhs: "type (heap s (arg1 (heap s e))) = Inc"
    and rec: "rec (arg2 (heap s e)) (root prev (root e s)) = Some (Inr (rhs_res, s1))"
    and e1: "e1 = roots s1 (root_stack_top s1 - 2)"
    and prev1: "prev1 = roots s1 (root_stack_top s1 - 1)"
    and noalias: "rhs_res \<noteq> e1"
    and num: "type (heap s1 rhs_res) = Num" "numeric_arg1 (heap s1 rhs_res) + 1 \<noteq> 0"
  shows "partial_eval_primitive_application rec fuel e prev s =
     Some (Inr (e1, prev1,
       s1\<lparr>root_stack_top := root_stack_top s1 - 2,
          heap := (heap s1)(e1 := (heap s1 e1)
            \<lparr>type := Num, arg1 := unat (numeric_arg1 (heap s1 rhs_res) + 1), arg2 := 0\<rparr>)\<rparr>))"
  using assms
  by (simp add: partial_eval_primitive_application_def Let_def unroot_def to_number_def
      numeric_arg1_def set_numeric_arg1_def)

lemma inc_round:
  assumes cur: "type (heap s cur) = Inc" and e: "e \<noteq> 0"
    and s3: "s3 = s\<lparr>heap := (heap s)(e := (heap s e)\<lparr>arg1 := cur\<rparr>)\<rparr>"
    and rec: "partial_eval_loop (Suc k) 0 (arg2 (heap s e)) (root (arg1 (heap s e)) (root e s3))
        = Some (Inr (r', s10))"
    and e1: "e1 = roots s10 (root_stack_top s10 - 2)"
    and prev1: "prev1 = roots s10 (root_stack_top s10 - 1)"
    and noalias: "r' \<noteq> e1"
    and num: "type (heap s10 r') = Num" "numeric_arg1 (heap s10 r') + 1 \<noteq> 0"
  shows "partial_eval_loop (Suc (Suc k)) e cur s =
     partial_eval_loop (Suc k) prev1 e1
       (s10\<lparr>root_stack_top := root_stack_top s10 - 2,
          heap := (heap s10)(e1 := (heap s10 e1)
            \<lparr>type := Num, arg1 := unat (numeric_arg1 (heap s10 r') + 1), arg2 := 0\<rparr>)\<rparr>)"
proof -
  have t: "type (heap s3 (arg1 (heap s3 e))) = Inc"
    using cur by (auto simp: s3)
  have a: "arg2 (heap s3 e) = arg2 (heap s e)"
    by (simp add: s3)
  note p = Inc_case [where rec = "partial_eval_loop (Suc k) 0" and s = s3 and e = e
      and prev = "arg1 (heap s e)" and fuel = "Suc k", OF t rec [folded a] e1 prev1 noalias num]
  show ?thesis
    using cur e
    by (subst partial_eval_loop.simps) (simp add: drop_i1_def Let_def s3 [symmetric] p)
qed

section \<open>The parser\<close>


subsection \<open>Fuel of the streams\<close>



subsection \<open>The cells of a digit run\<close>






section \<open>The driver\<close>

text \<open>
  Claim C6. In a round of the driver's loop, let the first reservation return, and let
  the decoding of the head of the output list return the value \<open>ch\<close>. If \<open>ch\<close> is at
  least 256, \<^verbatim>\<open>main\<close> returns \<open>ch - 256\<close>, which is the exit code of the process.
  Otherwise, when the second reservation returns, the byte \<open>ch\<close> is appended to the
  standard output, the top-level root becomes a new cell \<^verbatim>\<open>A(top, KI)\<close>, the tail of
  the list, and the loop goes on.
\<close>

theorem main_round_result:
  assumes "check fuel 1 s = Some (Inr s1)"
    and "car (roots s1 toplevel_root) s1 = (c, s2)"
    and "church2int fuel c s2 = Some (Inr (ch, s3))"
  shows "(256 \<le>s ch \<longrightarrow>
            main_round fuel s = Some (Inr (Return (sint ch - 256), s3))
          \<and> main_loop (Suc fuel) s = Some (Inr (sint ch - 256, s3)))
       \<and> (\<not> 256 \<le>s ch \<longrightarrow>
            (\<forall>s4. check fuel 1 (putchar ch s3) = Some (Inr s4) \<longrightarrow>
               (\<exists>s5. main_round fuel s = Some (Inr (Continue, s5))
                 \<and> main_loop (Suc fuel) s = main_loop fuel s5
                 \<and> stdout s5 = stdout s3 @ [ucast ch]
                 \<and> roots s5 toplevel_root = next_alloc s4
                 \<and> heap s5 (next_alloc s4) = Expr_init A (roots s4 toplevel_root) KI)))"
proof (intro conjI impI allI)
  assume "256 \<le>s ch"
  with assms show "main_round fuel s = Some (Inr (Return (sint ch - 256), s3))"
    by (simp add: main_round_def)
  then show "main_loop (Suc fuel) s = Some (Inr (sint ch - 256, s3))"
    by simp
next
  fix s4
  assume lt: "\<not> 256 \<le>s ch" and c4: "check fuel 1 (putchar ch s3) = Some (Inr s4)"
  define s5 where "s5 = (snd (cdr (roots s4 toplevel_root) s4))
      \<lparr>roots := (roots (snd (cdr (roots s4 toplevel_root) s4)))
                   (toplevel_root := fst (cdr (roots s4 toplevel_root) s4))\<rparr>"
  have r: "main_round fuel s = Some (Inr (Continue, s5))"
    using assms lt c4 by (simp add: main_round_def s5_def split: prod.splits)
  have "same_io (putchar ch s3) s4"
    using c4 by (rule check_io)
  then have o: "stdout s5 = stdout s3 @ [ucast ch]"
    by (simp add: s5_def same_io_def putchar_def cdr_def alloc_defs)
  have h: "roots s5 toplevel_root = next_alloc s4
      \<and> heap s5 (next_alloc s4) = Expr_init A (roots s4 toplevel_root) KI"
    by (simp add: s5_def cdr_def alloc_defs)
  from r o h show "\<exists>s5. main_round fuel s = Some (Inr (Continue, s5))
      \<and> main_loop (Suc fuel) s = main_loop fuel s5
      \<and> stdout s5 = stdout s3 @ [ucast ch]
      \<and> roots s5 toplevel_root = next_alloc s4
      \<and> heap s5 (next_alloc s4) = Expr_init A (roots s4 toplevel_root) KI"
    by (intro exI [of _ s5]) simp
qed

text \<open>
  The first round of the program \<^verbatim>\<open>I\<close> on the input byte 1: the head decodes to 1.
\<close>

lemma identity_round_decoded:
  "\<exists>s3. church2int 30 (space1 + 257) (snd (car (space1 + 256) (identity_program_state [1])))
           = Some (Inr (1, s3))
     \<and> \<not> is_exhausted 1 (putchar 1 s3) \<and> stdout s3 = []"
  apply (simp add: identity_program_state_def main_install_def
      church2int_def check_def car_def partial_eval_def
      toplevel_root_def church2int_root_def state_defs run_defs)
  apply (subst partial_eval_loop_numeral, simp add: run_defs state_defs)+
  done

text \<open>
  The theorem at that round: the byte is written and the root becomes the tail.
\<close>

theorem main_round_result_witness:
  "\<exists>s3 s4 s5.
      check 30 1 (identity_program_state [1]) = Some (Inr (identity_program_state [1]))
    \<and> car (roots (identity_program_state [1]) toplevel_root) (identity_program_state [1])
        = (space1 + 257, snd (car (space1 + 256) (identity_program_state [1])))
    \<and> church2int 30 (space1 + 257) (snd (car (space1 + 256) (identity_program_state [1])))
        = Some (Inr (1, s3))
    \<and> \<not> 256 \<le>s (1 :: 32 word)
    \<and> check 30 1 (putchar 1 s3) = Some (Inr s4)
    \<and> main_round 30 (identity_program_state [1]) = Some (Inr (Continue, s5))
    \<and> stdout s5 = [1]
    \<and> heap s5 (roots s5 toplevel_root) = Expr_init A (roots s4 toplevel_root) KI"
proof -
  let ?S = "identity_program_state [1]"
  have h1: "check 30 1 ?S = Some (Inr ?S)"
    by (simp add: check_def is_exhausted_def identity_program_state_def main_install_def
        alloc_defs state_defs layout_defs)
  have h2: "car (roots ?S toplevel_root) ?S = (space1 + 257, snd (car (space1 + 256) ?S))"
    by (simp add: car_def identity_program_state_def main_install_def toplevel_root_def
        alloc_defs state_defs layout_defs)
  obtain s3 where h3: "church2int 30 (space1 + 257) (snd (car (space1 + 256) ?S)) = Some (Inr (1, s3))"
    and e3: "\<not> is_exhausted 1 (putchar 1 s3)" and o3: "stdout s3 = []"
    using identity_round_decoded by blast
  have h4: "\<not> 256 \<le>s (1 :: 32 word)"
    by (simp add: word_sle_eq)
  have h5: "check 30 1 (putchar 1 s3) = Some (Inr (putchar 1 s3))"
    using e3 by (simp add: check_def)
  from main_round_result [OF h1 h2 h3] h4 h5
  obtain s5 where "main_round 30 ?S = Some (Inr (Continue, s5))"
    and "stdout s5 = stdout s3 @ [ucast (1 :: 32 word)]"
    and "roots s5 toplevel_root = next_alloc (putchar 1 s3)"
    and "heap s5 (next_alloc (putchar 1 s3)) = Expr_init A (roots (putchar 1 s3) toplevel_root) KI"
    by blast
  with h1 h2 h3 h4 h5 o3 show ?thesis
    by (intro exI [of _ s3] exI [of _ "putchar 1 s3"] exI [of _ s5]) simp
qed

section \<open>The Church character cache\<close>

subsection \<open>Decoding a cache entry\<close>

lemma church_numeral_frame:
  "(\<And>p. p < B \<Longrightarrow> h' p = h p) \<Longrightarrow> church_numeral h' B n c = church_numeral h B n c"
  by (induction h B n c rule: church_numeral.induct) auto

lemma statics_intact_frame:
  "(\<And>p. p \<le> 12 \<Longrightarrow> h' p = h p) \<Longrightarrow> statics_intact h' = statics_intact h"
  by (simp add: statics_intact_def layout_defs)

lemma decode_zero:
  assumes st: "statics_intact (heap s)"
    and lay: "12 < B" "B \<le> b" "B \<le> e0" "b \<noteq> e0" "b < next_alloc s" "e0 < next_alloc s"
    and e0: "heap s e0 = Expr_init A b cZero" and b: "heap s b = Expr_init A KI cInc"
  shows "\<exists>s'. partial_eval_loop (Suc (Suc (Suc (Suc (Suc g))))) 0 e0 s = Some (Inr (cZero, s'))
      \<and> s' = s\<lparr>heap := heap s'\<rparr>
      \<and> (\<forall>p. p \<noteq> e0 \<and> p \<noteq> b \<longrightarrow> heap s' p = heap s p)"
proof -
  have statics: "heap s cI = Expr_init I 0 0" "heap s KI = Expr_init K1 cI 0"
    "heap s cInc = Expr_init Inc 0 0" "heap s cZero = Expr_init Num 0 0"
    using st by (simp_all add: statics_intact_def)
  note facts = statics [unfolded layout_defs] e0 [unfolded layout_defs] b [unfolded layout_defs]
  show ?thesis
    using lay
    apply (subst partial_eval_loop.simps, simp add: step_defs facts layout_defs)
    apply (subst partial_eval_loop.simps, simp add: step_defs facts layout_defs)
    apply (subst partial_eval_loop.simps, simp add: step_defs facts layout_defs)
    done
qed

lemma decode_one:
  assumes st: "statics_intact (heap s)"
    and lay: "12 < B" "B \<le> b" "B \<le> e0" "b \<noteq> e0" "b < next_alloc s" "e0 < next_alloc s"
    and e0: "heap s e0 = Expr_init A b cZero" and b: "heap s b = Expr_init A cI cInc"
  shows "\<exists>s'. partial_eval_loop (Suc (Suc (Suc (Suc (Suc g))))) 0 e0 s = Some (Inr (e0, s'))
      \<and> s' = s\<lparr>heap := heap s', roots := roots s'\<rparr>
      \<and> type (heap s' e0) = Num \<and> numeric_arg1 (heap s' e0) = 1
      \<and> (\<forall>p. p \<noteq> e0 \<and> p \<noteq> b \<longrightarrow> heap s' p = heap s p)
      \<and> (\<forall>i. i < root_stack_top s \<longrightarrow> roots s' i = roots s i)"
proof -
  have statics: "heap s cI = Expr_init I 0 0"
    "heap s cInc = Expr_init Inc 0 0" "heap s cZero = Expr_init Num 0 0"
    using st by (simp_all add: statics_intact_def)
  note facts = statics [unfolded layout_defs] e0 [unfolded layout_defs] b [unfolded layout_defs]
  show ?thesis
    using lay
    apply (subst partial_eval_loop.simps, simp add: step_defs facts layout_defs)
    apply (subst partial_eval_loop.simps,
        simp add: step_defs facts layout_defs partial_eval_loop_of_result)
    done
qed


lemma level_prefix:
  assumes st: "statics_intact (heap s)"
    and c: "heap s c = Expr_init S2 SKSK c'" "12 < c" "c < B"
    and lay: "12 < B" "B \<le> b" "B \<le> e0" "b \<noteq> e0" "b < next_alloc s" "e0 < next_alloc s"
    and e0: "heap s e0 = Expr_init A b cZero" and b: "heap s b = Expr_init A c cInc"
    and mem: "next_alloc s + 6 < from_space_end s"
    and na: "na = next_alloc s"
    and G: "G = Suc (Suc (Suc g))"
  shows "\<exists>S8. partial_eval_loop (Suc (Suc (Suc (Suc (Suc (Suc (Suc (Suc (Suc (Suc (Suc g)))))))))))
          0 e0 s
        = partial_eval_loop G e0 cInc S8
      \<and> S8 = s\<lparr>heap := heap S8, next_alloc := na + 6\<rparr>
      \<and> heap S8 e0 = \<lparr>forward = 0, arg1 = 0, arg2 = na + 5, type = A\<rparr>
      \<and> heap S8 (na + 5) = Expr_init A (na + 1) cZero
      \<and> heap S8 (na + 1) = Expr_init A c' cInc
      \<and> (\<forall>p. p < na \<and> p \<noteq> e0 \<and> p \<noteq> b \<longrightarrow> heap S8 p = heap s p)"
proof -
  have statics: "heap s cK = Expr_init K 0 0" "heap s cS = Expr_init S 0 0"
    "heap s KS = Expr_init K1 cS 0" "heap s SKSK = Expr_init S2 KS cK"
    "heap s cInc = Expr_init Inc 0 0" "heap s cZero = Expr_init Num 0 0"
    using st by (simp_all add: statics_intact_def)
  have k: "heap s (Suc 0) = Expr_init K 0 0"
    using statics(1) by (simp add: cK_def)
  note facts = k statics [unfolded layout_defs] c(1) [unfolded layout_defs]
    e0 [unfolded layout_defs] b [unfolded layout_defs]
  show ?thesis
    using c(2,3) lay mem unfolding na
    apply (subst partial_eval_loop.simps, simp add: step_defs facts layout_defs)
    apply (subst partial_eval_loop.simps, simp add: step_defs facts layout_defs)
    apply (subst partial_eval_loop.simps, simp add: step_defs facts layout_defs)
    apply (subst partial_eval_loop.simps, simp add: step_defs facts layout_defs)
    apply (subst partial_eval_loop.simps, simp add: step_defs facts layout_defs)
    apply (subst partial_eval_loop.simps, simp add: step_defs facts layout_defs)
    apply (subst partial_eval_loop.simps, simp add: step_defs facts layout_defs)
    apply (subst partial_eval_loop.simps, simp add: step_defs facts layout_defs)
    apply (unfold G)
    apply (rule exI, rule conjI, rule refl)
    apply (simp add: step_defs facts layout_defs)
    done
qed

lemma decode_numeral:
  assumes "statics_intact (heap s)" and "church_numeral (heap s) B n c" and "n \<le> 256"
    and "12 < B" "B \<le> b" "B \<le> e0" "b \<noteq> e0" "b < next_alloc s" "e0 < next_alloc s"
    and "heap s e0 = Expr_init A b cZero" and "heap s b = Expr_init A c cInc"
    and "next_alloc s + 6 * n < from_space_end s"
    and "11 * n + 5 \<le> f"
  shows "\<exists>r s'. partial_eval_loop f 0 e0 s = Some (Inr (r, s'))
      \<and> (r = e0 \<or> r = cZero)
      \<and> type (heap s' r) = Num \<and> numeric_arg1 (heap s' r) = of_nat n
      \<and> (\<forall>p. p < next_alloc s \<and> p \<noteq> e0 \<and> p \<noteq> b \<longrightarrow> heap s' p = heap s p)
      \<and> root_stack_top s' = root_stack_top s
      \<and> (\<forall>i. i < root_stack_top s \<longrightarrow> roots s' i = roots s i)
      \<and> next_alloc s \<le> next_alloc s'"
  using assms
proof (induction n arbitrary: s c e0 b f)
  case 0
  then have "5 \<le> f" by simp
  then obtain g where "f = 5 + g" by (auto simp: le_iff_add)
  then have f: "f = Suc (Suc (Suc (Suc (Suc g))))" by simp
  from 0 have b: "heap s b = Expr_init A KI cInc" by simp
  from decode_zero [OF "0.prems"(1,4-9) "0.prems"(10) b, of g]
  obtain s' where r: "partial_eval_loop f 0 e0 s = Some (Inr (cZero, s'))"
    and s': "s' = s\<lparr>heap := heap s'\<rparr>"
    and fr: "\<forall>p. p \<noteq> e0 \<and> p \<noteq> b \<longrightarrow> heap s' p = heap s p"
    unfolding f by blast
  have z: "heap s' cZero = heap s cZero"
    using fr "0.prems"(4,5,6) by (simp add: cZero_def)
  have "type (heap s' cZero) = Num \<and> numeric_arg1 (heap s' cZero) = 0"
    using "0.prems"(1) unfolding z by (simp add: statics_intact_def Expr_init_def numeric_arg1_def)
  moreover have "root_stack_top s' = root_stack_top s \<and> roots s' = roots s
      \<and> next_alloc s' = next_alloc s"
    using arg_cong [OF s', of root_stack_top] arg_cong [OF s', of roots]
      arg_cong [OF s', of next_alloc] by simp
  ultimately show ?case
    using r fr by auto
next
  case (Suc n)
  note prems = Suc.prems
  show ?case
  proof (cases n)
    case 0
    from prems have "5 \<le> f" by simp
    then obtain g where "f = 5 + g" by (auto simp: le_iff_add)
    then have f: "f = Suc (Suc (Suc (Suc (Suc g))))" by simp
    from prems 0 have b: "heap s b = Expr_init A cI cInc" by simp
    from decode_one [OF prems(1,4-9) prems(10) b, of g]
    obtain s' where r: "partial_eval_loop f 0 e0 s = Some (Inr (e0, s'))"
      and s': "s' = s\<lparr>heap := heap s', roots := roots s'\<rparr>"
      and n: "type (heap s' e0) = Num" "numeric_arg1 (heap s' e0) = 1"
      and fr: "\<forall>p. p \<noteq> e0 \<and> p \<noteq> b \<longrightarrow> heap s' p = heap s p"
      and ro: "\<forall>i. i < root_stack_top s \<longrightarrow> roots s' i = roots s i"
      unfolding f by blast
    have "root_stack_top s' = root_stack_top s \<and> next_alloc s' = next_alloc s"
      using arg_cong [OF s', of root_stack_top] arg_cong [OF s', of next_alloc] by simp
    with r n fr ro 0 show ?thesis by auto
  next
    case (Suc m)
    define c' where "c' = arg2 (heap s c)"
    define na where "na = next_alloc s"
    define top where "top = root_stack_top s"
    from prems(2) Suc have c: "heap s c = Expr_init S2 SKSK c'" "12 < c" "c < B"
      and c'n: "church_numeral (heap s) B (Suc m) c'"
      by (simp_all add: c'_def)
    from prems have "11 \<le> f" by simp
    then obtain g0 where "f = 11 + g0" by (auto simp: le_iff_add)
    then obtain g where f: "f = Suc (Suc (Suc (Suc (Suc (Suc (Suc (Suc (Suc (Suc (Suc g))))))))))"
      by simp
    have g: "11 * n + 5 \<le> Suc (Suc g)"
      using prems(13) f by simp
    have mem: "next_alloc s + 6 < from_space_end s"
      using prems(12) by simp
    from level_prefix [OF prems(1) c prems(4-9) prems(10,11) mem na_def refl, of g]
    obtain S8 where run8: "partial_eval_loop f 0 e0 s
          = partial_eval_loop (Suc (Suc (Suc g))) e0 cInc S8"
      and S8: "S8 = s\<lparr>heap := heap S8, next_alloc := na + 6\<rparr>"
      and h8: "heap S8 e0 = \<lparr>forward = 0, arg1 = 0, arg2 = na + 5, type = A\<rparr>"
        "heap S8 (na + 5) = Expr_init A (na + 1) cZero"
        "heap S8 (na + 1) = Expr_init A c' cInc"
      and fr8: "\<forall>p. p < na \<and> p \<noteq> e0 \<and> p \<noteq> b \<longrightarrow> heap S8 p = heap s p"
      unfolding f by blast
    have f8: "next_alloc S8 = na + 6" "root_stack_top S8 = top" "roots S8 = roots s"
      "from_space_end S8 = from_space_end s"
      using arg_cong [OF S8, of next_alloc] arg_cong [OF S8, of root_stack_top]
        arg_cong [OF S8, of roots] arg_cong [OF S8, of from_space_end]
      by (simp_all add: top_def)
    define S3 where "S3 = S8\<lparr>heap := (heap S8)(e0 := (heap S8 e0)\<lparr>arg1 := cInc\<rparr>)\<rparr>"
    define S9 where "S9 = root (arg1 (heap S8 e0)) (root e0 S3)"
    have lay: "12 < B" "B \<le> b" "B \<le> e0" "b \<noteq> e0" "b < na" "e0 < na"
      using prems(4-9) by (simp_all add: na_def)
    have old: "heap S9 p = heap s p" if "p < B" for p
      using that lay fr8 by (simp add: S9_def S3_def root_def)
    have st9: "statics_intact (heap S9)"
      using prems(1) lay by (subst statics_intact_frame [of _ "heap s"]) (simp_all add: old)
    have cn9: "church_numeral (heap S9) B n c'"
      using c'n Suc by (subst church_numeral_frame [of _ _ "heap s"]) (simp_all add: old)
    have h9: "heap S9 (na + 5) = Expr_init A (na + 1) cZero"
      "heap S9 (na + 1) = Expr_init A c' cInc"
      using lay h8 by (simp_all add: S9_def S3_def root_def)
    have f9: "next_alloc S9 = na + 6" "root_stack_top S9 = top + 2"
      "roots S9 top = e0" "roots S9 (top + 1) = 0" "from_space_end S9 = from_space_end s"
      "\<And>i. i < top \<Longrightarrow> roots S9 i = roots s i"
      using f8 h8 by (simp_all add: S9_def S3_def root_def)
    have "\<exists>r s'. partial_eval_loop (Suc (Suc g)) 0 (na + 5) S9 = Some (Inr (r, s'))
      \<and> (r = na + 5 \<or> r = cZero)
      \<and> type (heap s' r) = Num \<and> numeric_arg1 (heap s' r) = of_nat n
      \<and> (\<forall>p. p < next_alloc S9 \<and> p \<noteq> na + 5 \<and> p \<noteq> na + 1 \<longrightarrow> heap s' p = heap S9 p)
      \<and> root_stack_top s' = root_stack_top S9
      \<and> (\<forall>i. i < root_stack_top S9 \<longrightarrow> roots s' i = roots S9 i)
      \<and> next_alloc S9 \<le> next_alloc s'"
      using st9 cn9 prems(3) lay h9 prems(12) g
      by (intro Suc.IH [where b = "na + 1" and c = c'])
         (simp_all add: f9 na_def)
    then obtain r' s10 where
      rec: "partial_eval_loop (Suc (Suc g)) 0 (na + 5) S9 = Some (Inr (r', s10))"
      and r': "r' = na + 5 \<or> r' = cZero"
      and n10: "type (heap s10 r') = Num" "numeric_arg1 (heap s10 r') = of_nat n"
      and fr10: "\<forall>p. p < na + 6 \<and> p \<noteq> na + 5 \<and> p \<noteq> na + 1 \<longrightarrow> heap s10 p = heap S9 p"
      and top10: "root_stack_top s10 = top + 2"
      and ro10: "\<forall>i. i < top + 2 \<longrightarrow> roots s10 i = roots S9 i"
      and na10: "na + 6 \<le> next_alloc s10"
      unfolding f9 by blast
    have e1: "e0 = roots s10 (root_stack_top s10 - 2)"
      using ro10 f9 by (simp add: top10)
    have p1: "0 = roots s10 (root_stack_top s10 - 1)"
      using ro10 f9 by (simp add: top10 add.commute)
    have na': "r' \<noteq> e0"
      using r' lay by (auto simp: cZero_def)
    have nz: "numeric_arg1 (heap s10 r') + 1 \<noteq> 0"
    proof -
      have "(of_nat (Suc n) :: 32 word) \<noteq> 0"
        using prems(3) by (intro of_nat_neq_0) simp_all
      then show ?thesis by (simp add: n10 add.commute)
    qed
    have t8: "type (heap S8 cInc) = Inc"
    proof -
      have "heap S8 cInc = heap s cInc"
        using fr8 lay by (simp add: cInc_def)
      then show ?thesis using prems(1) by (simp add: statics_intact_def Expr_init_def)
    qed
    have ne: "e0 \<noteq> 0"
      using lay by simp
    have rec': "partial_eval_loop (Suc (Suc g)) 0 (arg2 (heap S8 e0))
        (root (arg1 (heap S8 e0)) (root e0 S3)) = Some (Inr (r', s10))"
      using rec by (simp add: h8 S9_def)
    define S11 where "S11 = s10\<lparr>root_stack_top := root_stack_top s10 - 2,
        heap := (heap s10)(e0 := (heap s10 e0)
          \<lparr>type := Num, arg1 := unat (numeric_arg1 (heap s10 r') + 1), arg2 := 0\<rparr>)\<rparr>"
    have run9: "partial_eval_loop (Suc (Suc (Suc g))) e0 cInc S8
        = partial_eval_loop (Suc (Suc g)) 0 e0 S11"
      unfolding S11_def by (rule inc_round [OF t8 ne S3_def rec' e1 p1 na' n10(1) nz])
    have run10: "partial_eval_loop (Suc (Suc g)) 0 e0 S11 = Some (Inr (e0, S11))"
      by (rule partial_eval_loop_of_result) (simp_all add: S11_def)
    have res: "type (heap S11 e0) = Num" "numeric_arg1 (heap S11 e0) = of_nat (Suc n)"
      by (simp_all add: S11_def numeric_arg1_def n10 [unfolded numeric_arg1_def])
    have frame: "heap S11 p = heap s p" if "p < na" "p \<noteq> e0" "p \<noteq> b" for p
    proof -
      have "heap S11 p = heap s10 p"
        using that by (simp add: S11_def)
      also have "\<dots> = heap S9 p"
        using that fr10 by simp
      also have "\<dots> = heap S8 p"
        using that by (simp add: S9_def S3_def root_def)
      also have "\<dots> = heap s p"
        using that fr8 by simp
      finally show ?thesis .
    qed
    have rts: "roots S11 i = roots s i" if "i < top" for i
      using that ro10 f9(6) by (simp add: S11_def)
    have "partial_eval_loop f 0 e0 s = Some (Inr (e0, S11))"
      using run8 run9 run10 by simp
    moreover have "root_stack_top S11 = root_stack_top s"
      by (simp add: S11_def top10 top_def)
    moreover have "next_alloc s \<le> next_alloc S11"
      using na10 by (simp add: S11_def na_def)
    ultimately show ?thesis
      using res frame rts by (auto simp: na_def top_def)
  qed
qed


lemma of_nat_not_minus_one:
  assumes "n \<le> 256"
  shows "(of_nat n :: 32 word) \<noteq> - 1"
proof
  assume "(of_nat n :: 32 word) = - 1"
  then have "(of_nat (Suc n) :: 32 word) = 0" by simp
  moreover have "(of_nat (Suc n) :: 32 word) \<noteq> 0"
    using assms by (intro of_nat_neq_0) simp_all
  ultimately show False by simp
qed

lemma church2int_numeral:
  assumes st: "statics_intact (heap s)" and cn: "church_numeral (heap s) (next_alloc s) n c"
    and n: "n \<le> 256" and lay: "12 < next_alloc s"
    and mem: "next_alloc s + 2 + 6 * n < from_space_end s"
    and f: "11 * n + 5 \<le> f"
  shows "\<exists>s'. church2int f c s = Some (Inr (of_nat n, s'))"
proof -
  define na where "na = next_alloc s"
  define s4 where "s4 = s\<lparr>next_alloc := na + 2,
      heap := (heap s)(na := Expr_init A c cInc, na + 1 := Expr_init A na cZero),
      roots := (roots s)(church2int_root := na + 1)\<rparr>"
  have c2: "check f 2 s = Some (Inr s)"
    using mem by (simp add: check_def is_exhausted_def)
  have old: "heap s4 p = heap s p" if "p < na" for p
    using that by (simp add: s4_def)
  have st4: "statics_intact (heap s4)"
    using st lay by (subst statics_intact_frame [of _ "heap s"]) (simp_all add: old na_def)
  have cn4: "church_numeral (heap s4) na n c"
    using cn by (subst church_numeral_frame [of _ _ "heap s"]) (simp_all add: old na_def)
  have "\<exists>r s'. partial_eval_loop f 0 (na + 1) s4 = Some (Inr (r, s'))
      \<and> (r = na + 1 \<or> r = cZero)
      \<and> type (heap s' r) = Num \<and> numeric_arg1 (heap s' r) = of_nat n
      \<and> (\<forall>p. p < next_alloc s4 \<and> p \<noteq> na + 1 \<and> p \<noteq> na \<longrightarrow> heap s' p = heap s4 p)
      \<and> root_stack_top s' = root_stack_top s4
      \<and> (\<forall>i. i < root_stack_top s4 \<longrightarrow> roots s' i = roots s4 i)
      \<and> next_alloc s4 \<le> next_alloc s'"
    using st4 cn4 n lay mem f
    by (intro decode_numeral [where b = na and c = c and B = na])
       (simp_all add: s4_def na_def)
  then obtain r s' where r: "partial_eval f (na + 1) s4 = Some (Inr (r, s'))"
    and num: "type (heap s' r) = Num" "numeric_arg1 (heap s' r) = of_nat n"
    unfolding partial_eval_def by blast
  have t: "to_number (heap s' r) = of_nat n"
    using num by (simp add: to_number_def)
  define sA where "sA = snd (partial_apply c cInc s)"
  define sB where "sB = snd (partial_apply na cZero sA)"
  have pa: "partial_apply c cInc s = (na, sA)" "partial_apply na cZero sA = (na + 1, sB)"
    by (simp_all add: alloc_defs sA_def sB_def na_def)
  have e: "sB\<lparr>roots := (roots sB)(church2int_root := Suc na)\<rparr> = s4"
    by (simp add: alloc_defs sA_def sB_def s4_def na_def)
  show ?thesis
    using r t of_nat_not_minus_one [OF n]
    by (simp add: church2int_def c2 pa e)
qed

lemma make_church_char_mono:
  "make_church_char f ch s = Some r \<Longrightarrow> f \<le> f' \<Longrightarrow> make_church_char f' ch s = Some r"
proof (induction f arbitrary: ch s r f')
  case 0
  then show ?case by simp
next
  case (Suc f)
  then obtain f'' where f': "f' = Suc f''" and le: "f \<le> f''"
    by (cases f') simp_all
  let ?ch1 = "if ch < 0 \<or> ch > 256 then 256 else ch"
  show ?case
  proof (cases "cached_church_chars s (nat ?ch1) = 0")
    case False
    with Suc.prems show ?thesis by (simp add: f' Let_def)
  next
    case True
    with Suc.prems obtain q s2 where
      r: "make_church_char f (?ch1 - 1) (snd (operator_new s)) = Some (q, s2)"
      by (auto simp: Let_def split_beta split: option.splits)
    have "make_church_char f'' (?ch1 - 1) (snd (operator_new s)) = Some (q, s2)"
      using r le by (rule Suc.IH)
    with Suc.prems True r show ?thesis
      by (simp add: f' Let_def split_beta)
  qed
qed

lemma main_preinit_mono:
  "main_preinit f k s = Some t \<Longrightarrow> f \<le> f' \<Longrightarrow> main_preinit f' k s = Some t"
proof (induction k arbitrary: t)
  case 0
  then show ?case by simp
next
  case (Suc k)
  from Suc.prems obtain s1 p where
    a: "main_preinit f k s = Some s1" and b: "make_church_char f (int k) s1 = Some (p, t)"
    by (auto split: option.splits)
  have "main_preinit f' k s = Some s1"
    using a Suc.prems(2) by (rule Suc.IH)
  moreover have "make_church_char f' (int k) s1 = Some (p, t)"
    using b Suc.prems(2) by (rule make_church_char_mono)
  ultimately show ?case by simp
qed

lemma main_preinit_state:
  assumes "main_preinit F 257 (initial_state input) = Some s"
  shows "s = preinit_state 257 input"
proof -
  have "main_preinit (Suc (Suc F)) 257 (initial_state input) = Some s"
    using assms by (rule main_preinit_mono) simp
  then show ?thesis by (simp add: main_preinit_eq)
qed

lemma preinit_statics: "statics_intact (heap (preinit_state 257 input))"
  by (simp add: statics_intact_def state_defs layout_defs)

lemma preinit_church_cell:
  assumes "2 \<le> n" "n \<le> 256"
  shows "heap (preinit_state 257 input) (church_cell n) = Expr_init S2 SKSK (church_cell (n - 1))"
proof -
  have "n - 2 + 1 = n - 1" using assms by simp
  then show ?thesis
    using assms by (simp add: preinit_state_fields church_cell_def [of n] space1_def)
qed

lemma preinit_church_numeral_Suc:
  "Suc n \<le> 256 \<Longrightarrow>
   church_numeral (heap (preinit_state 257 input)) (space1 + 255) (Suc n) (church_cell (Suc n))"
proof (induction n)
  case 0
  show ?case by (simp add: church_cell_def)
next
  case (Suc n)
  let ?h = "heap (preinit_state 257 input)"
  have c: "?h (church_cell (Suc (Suc n))) = Expr_init S2 SKSK (church_cell (Suc n))"
    using Suc.prems preinit_church_cell [of "Suc (Suc n)" input] by simp
  have "12 < church_cell (Suc (Suc n)) \<and> church_cell (Suc (Suc n)) < space1 + 255"
    using Suc.prems by (simp add: church_cell_def space1_def)
  moreover have "church_numeral ?h (space1 + 255) (Suc n) (church_cell (Suc n))"
    using Suc.prems by (intro Suc.IH) simp
  ultimately show ?case
    by (simp add: c Expr_init_def)
qed

lemma preinit_church_numeral:
  "n \<le> 256 \<Longrightarrow>
   church_numeral (heap (preinit_state 257 input)) (space1 + 255) n (church_cell n)"
  by (cases n) (simp_all add: preinit_church_numeral_Suc, simp add: church_cell_def)

text \<open>
  Claim C8. After the loop of \<^verbatim>\<open>main\<close> that fills the cache, entry 0 is the static atom
  \<^verbatim>\<open>KI\<close>, entry 1 is the static atom \<^verbatim>\<open>cI\<close>, every entry \<open>n\<close> from 2 to 256 is a cell
  \<^verbatim>\<open>S2(SKSK, ccc[n-1])\<close>, and for every \<open>n\<close> up to 256 the decoder \<^verbatim>\<open>church2int\<close> returns
  \<open>n\<close> on entry \<open>n\<close>, with any fuel from \<open>11 * n + 5\<close> on.
\<close>

theorem church_roundtrip:
  assumes "main_preinit F 257 (initial_state input) = Some s"
    and "n \<le> 256" and "11 * n + 5 \<le> fuel"
  shows "cached_church_chars s 0 = KI \<and> cached_church_chars s 1 = cI
     \<and> (2 \<le> n \<longrightarrow>
          heap s (cached_church_chars s n) = Expr_init S2 SKSK (cached_church_chars s (n - 1)))
     \<and> (\<exists>s'. church2int fuel (cached_church_chars s n) s = Some (Inr (of_nat n, s')))"
proof -
  have s: "s = preinit_state 257 input"
    using assms(1) by (rule main_preinit_state)
  have c: "cached_church_chars s i = church_cell i" if "i \<le> 256" for i
    using that by (simp add: s preinit_state_fields)
  have na: "next_alloc s = space1 + 255"
    by (simp add: s preinit_state_fields)
  have "\<exists>s'. church2int fuel (church_cell n) s = Some (Inr (of_nat n, s'))"
  proof (rule church2int_numeral)
    show "statics_intact (heap s)"
      unfolding s by (rule preinit_statics)
    show "church_numeral (heap s) (next_alloc s) n (church_cell n)"
      unfolding na unfolding s using assms(2) by (rule preinit_church_numeral)
    show "n \<le> 256" by fact
    show "12 < next_alloc s" by (simp add: na space1_def)
    show "next_alloc s + 2 + 6 * n < from_space_end s"
      using assms(2) by (simp add: s preinit_state_fields layout_defs)
    show "11 * n + 5 \<le> fuel" by fact
  qed
  moreover have "2 \<le> n \<longrightarrow> heap s (church_cell n) = Expr_init S2 SKSK (church_cell (n - 1))"
    using preinit_church_cell [of n input] assms(2) by (simp add: s)
  ultimately show ?thesis
    using assms(2) by (simp add: c) (simp add: church_cell_def)
qed

text \<open>The theorem at the entry 3.\<close>

theorem church_roundtrip_witness:
  "main_preinit 2 257 (initial_state []) = Some (preinit_state 257 [])
   \<and> (3::nat) \<le> 256 \<and> 11 * 3 + 5 \<le> (38::nat) \<and> (2::nat) \<le> 3
   \<and> heap (preinit_state 257 []) (cached_church_chars (preinit_state 257 []) 3)
       = Expr_init S2 SKSK (cached_church_chars (preinit_state 257 []) (3 - 1))
   \<and> (\<exists>s'. church2int 38 (cached_church_chars (preinit_state 257 []) 3) (preinit_state 257 [])
          = Some (Inr (3, s')))"
proof -
  have h1: "main_preinit 2 257 (initial_state []) = Some (preinit_state 257 [])"
    using main_preinit_eq [of 257 0 "[]"] by (simp add: numeral_2_eq_2)
  have h2: "(3::nat) \<le> 256" by simp
  have h3: "11 * 3 + 5 \<le> (38::nat)" by simp
  from church_roundtrip [OF h1 h2 h3] h1 show ?thesis by simp
qed

end
